theory Spec2Isabelle
  imports Main "HOL-Library.Sublist" "HOL-Library.AList"
begin

section \<open>Strings as the program uses them\<close>

text \<open>
  A string of the program is a \<^typ>\<open>string\<close> here, read as its UTF-8 bytes. The model is
  exact on ASCII text, where a byte is a character and \<^const>\<open>length\<close> is the program's
  \<open>.length\<close>. A byte outside ASCII is an opaque letter: it is neither white space nor a
  line terminator and case conversion leaves it alone, so the white space of Unicode
  beyond ASCII (U+00A0, U+2028, ...) and capitals beyond ASCII are outside the model's
  range.
\<close>

definition NL :: char where
  "NL = CHR 0x0A"

text \<open>The class \<open>\s\<close> of a regular expression, also what \<open>trim\<close> removes.\<close>

definition white_space :: "char \<Rightarrow> bool" where
  "white_space c = (c \<in> set [CHR 0x09, CHR 0x0A, CHR 0x0B, CHR 0x0C, CHR 0x0D, CHR 0x20])"

text \<open>What \<open>.\<close> refuses to match (the expression has no \<open>s\<close> flag).\<close>

definition line_terminator :: "char \<Rightarrow> bool" where
  "line_terminator c = (c = CHR 0x0A \<or> c = CHR 0x0D)"

definition to_lower_char :: "char \<Rightarrow> char" where
  "to_lower_char c =
     (case map_of (zip ''ABCDEFGHIJKLMNOPQRSTUVWXYZ'' ''abcdefghijklmnopqrstuvwxyz'') c of
        Some d \<Rightarrow> d
      | None \<Rightarrow> c)"

definition toLowerCase :: "string \<Rightarrow> string" where
  "toLowerCase s = map to_lower_char s"

text \<open>\<open>s.includes(needle)\<close>: the needle occurs somewhere in \<open>s\<close> as a contiguous run.\<close>

fun str_includes :: "string \<Rightarrow> string \<Rightarrow> bool" where
  "str_includes [] needle = (needle = [])"
| "str_includes (c # cs) needle = (prefix needle (c # cs) \<or> str_includes cs needle)"

definition trim :: "string \<Rightarrow> string" where
  "trim s = rev (dropWhile white_space (rev (dropWhile white_space s)))"

text \<open>
  \<open>s.split('\n')\<close>: never the empty list (the empty string splits into one empty
  line), so the first element that the destructuring \<open>[title, ...descLines]\<close> reads
  is always there.
\<close>

fun split_lines :: "string \<Rightarrow> string list" where
  "split_lines [] = [[]]"
| "split_lines (c # cs) =
     (if c = NL then [] # split_lines cs
      else (case split_lines cs of
              l # ls \<Rightarrow> (c # l) # ls
            | [] \<Rightarrow> [[c]]))"

text \<open>\<open>lines.join('\n')\<close>.\<close>

fun join_lines :: "string list \<Rightarrow> string" where
  "join_lines [] = []"
| "join_lines [l] = l"
| "join_lines (l # ls) = l @ NL # join_lines ls"

section \<open>The data model (types.ts)\<close>

datatype CommitType =
  Breaking | Feature | Fix | Docs | Perf | Refactor | Test | Build | Other

text \<open>The nine members of the union type, in the order the source lists them.\<close>

definition all_commit_types :: "CommitType list" where
  "all_commit_types = [Breaking, Feature, Fix, Docs, Perf, Refactor, Test, Build, Other]"

text \<open>
  What \<open>parseConventionalCommit\<close> returns. An optional field that is \<open>undefined\<close> is
  \<^const>\<open>None\<close>.
\<close>

record Classification =
  type :: CommitType
  scope :: "string option"
  breaking :: bool
  message :: string
  description :: "string option"

record ParsedCommit = Classification +
  sha :: string
  author :: string
  date :: string
  prNumber :: "nat option"
  commitUrl :: string

section \<open>The commit message parser (parseConventionalCommit)\<close>

subsection \<open>The regular expression\<close>

text \<open>
  \<^verbatim>\<open>/^(feat|fix|docs|perf|refactor|test|build|chore)(?:\(([^)]+)\))?(!)?:\s*(.+)(?:\n\n([\s\S]*))?$/i\<close>

  The expression is anchored at both ends (no \<open>m\<close> flag), so \<open>match\<close> succeeds at index 0
  or not at all. The matcher below follows the backtracking order of the expression: an
  alternative, an optional group and a greedy star are tried first, and given up only when
  what follows them fails.
\<close>

record RegexMatch =
  g_type :: string
  g_scope :: "string option"
  g_bang :: "string option"
  g_msg :: string
  g_desc :: "string option"

definition commit_tokens :: "string list" where
  "commit_tokens =
     [''feat'', ''fix'', ''docs'', ''perf'', ''refactor'', ''test'', ''build'', ''chore'']"

text \<open>Backtracking: the first way that succeeds.\<close>

fun orelse :: "'a option \<Rightarrow> 'a option \<Rightarrow> 'a option" where
  "orelse (Some x) _ = Some x"
| "orelse None y = y"

fun first_success :: "('a \<Rightarrow> 'b option) \<Rightarrow> 'a list \<Rightarrow> 'b option" where
  "first_success f [] = None"
| "first_success f (x # xs) = orelse (f x) (first_success f xs)"

text \<open>
  A literal of the pattern under the \<open>i\<close> flag: letters are compared without regard to
  case. The result is the input left over.
\<close>

fun match_literal_ci :: "string \<Rightarrow> string \<Rightarrow> string option" where
  "match_literal_ci [] s = Some s"
| "match_literal_ci (p # ps) [] = None"
| "match_literal_ci (p # ps) (c # cs) =
     (if to_lower_char c = to_lower_char p then match_literal_ci ps cs else None)"

text \<open>
  \<^verbatim>\<open>(.+)(?:\n\n([\s\S]*))?$\<close> from a fixed start. \<open>.+\<close> takes the longest run without a
  line terminator; a shorter run ends before a character of that run, where neither
  \<open>\n\n\<close> nor the end of the input can follow, so only the longest run can succeed.
\<close>

definition match_body :: "string \<Rightarrow> (string \<times> string option) option" where
  "match_body r =
     (let m = takeWhile (\<lambda>c. \<not> line_terminator c) r;
          rest = dropWhile (\<lambda>c. \<not> line_terminator c) r
      in if m = [] then None
         else if rest = [] then Some (m, None)
         else if prefix [NL, NL] rest then Some (m, Some (drop 2 rest))
         else None)"

text \<open>\<^verbatim>\<open>\s*\<close>, greedy: one more white-space character first, and without it on failure.\<close>

fun match_ws_body :: "string \<Rightarrow> (string \<times> string option) option" where
  "match_ws_body [] = match_body []"
| "match_ws_body (c # cs) =
     (if white_space c then orelse (match_ws_body cs) (match_body (c # cs))
      else match_body (c # cs))"

text \<open>\<^verbatim>\<open>:\s*(.+)(?:\n\n([\s\S]*))?$\<close>\<close>

definition match_colon ::
  "string \<Rightarrow> string option \<Rightarrow> string option \<Rightarrow> string \<Rightarrow> RegexMatch option" where
  "match_colon ty sc bang r =
     (case r of
        c # r1 \<Rightarrow>
          if c = CHR '':'' then
            map_option
              (\<lambda>(m, d). \<lparr>g_type = ty, g_scope = sc, g_bang = bang, g_msg = m, g_desc = d\<rparr>)
              (match_ws_body r1)
          else None
      | [] \<Rightarrow> None)"

text \<open>\<^verbatim>\<open>(!)?\<close> and what follows.\<close>

definition match_bang :: "string \<Rightarrow> string option \<Rightarrow> string \<Rightarrow> RegexMatch option" where
  "match_bang ty sc r =
     orelse
       (case r of
          c # r1 \<Rightarrow> if c = CHR ''!'' then match_colon ty sc (Some ''!'') r1 else None
        | [] \<Rightarrow> None)
       (match_colon ty sc None r)"

text \<open>
  \<^verbatim>\<open>\(([^)]+)\)\<close>: the scope and the input left over. \<open>[^)]+\<close> takes the longest run
  without a closing parenthesis (line breaks included); a shorter run is followed by a
  character of the run, never by the closing parenthesis the pattern asks for.
\<close>

definition scope_group :: "string \<Rightarrow> (string \<times> string) option" where
  "scope_group r =
     (case r of
        c # r1 \<Rightarrow>
          if c = CHR ''('' then
            (let s = takeWhile (\<lambda>c. c \<noteq> CHR '')'') r1;
                 r2 = dropWhile (\<lambda>c. c \<noteq> CHR '')'') r1
             in if s = [] then None
                else (case r2 of
                        _ # r3 \<Rightarrow> Some (s, r3)
                      | [] \<Rightarrow> None))
          else None
      | [] \<Rightarrow> None)"

text \<open>\<^verbatim>\<open>(?:\(([^)]+)\))?\<close> and what follows: with the group first, then without it.\<close>

definition match_scope :: "string \<Rightarrow> string \<Rightarrow> RegexMatch option" where
  "match_scope ty r =
     orelse
       (case scope_group r of
          Some (s, r3) \<Rightarrow> match_bang ty (Some s) r3
        | None \<Rightarrow> None)
       (match_bang ty None r)"

text \<open>The whole expression: the alternatives of the first group in their order.\<close>

definition conventional_regex :: "string \<Rightarrow> RegexMatch option" where
  "conventional_regex msg =
     first_success
       (\<lambda>tok. case match_literal_ci tok msg of
                 Some r \<Rightarrow> match_scope (take (length tok) msg) r
               | None \<Rightarrow> None)
       commit_tokens"

subsection \<open>mapCommitType\<close>

text \<open>
  \<open>typeMap\<close> is an object literal read with a computed key; \<open>|| 'other'\<close> covers a key
  it does not have. This is the function as its signature types it, a \<open>CommitType\<close> for
  every string; what the lookup answers at run time, for an inherited key too, is
  \<open>mapCommitType_run\<close> further down.
\<close>

definition typeMap :: "(string \<times> CommitType) list" where
  "typeMap =
     [(''feat'', Feature), (''fix'', Fix), (''docs'', Docs), (''perf'', Perf),
      (''refactor'', Refactor), (''test'', Test), (''build'', Build), (''chore'', Other)]"

definition mapCommitType :: "string \<Rightarrow> CommitType" where
  "mapCommitType t =
     (case map_of typeMap (toLowerCase t) of
        Some c \<Rightarrow> c
      | None \<Rightarrow> Other)"

subsection \<open>parseConventionalCommit\<close>

definition BREAKING_MARKER :: string where
  "BREAKING_MARKER = ''BREAKING CHANGE:''"

text \<open>The chain of \<open>if ... else if\<close> that infers a type from the lower-cased message.\<close>

definition inferType :: "string \<Rightarrow> CommitType" where
  "inferType msg =
     (let hasBreakingChange = str_includes msg BREAKING_MARKER;
          lowerMessage = toLowerCase msg
      in if hasBreakingChange then Breaking
         else if str_includes lowerMessage ''fix'' \<or> str_includes lowerMessage ''bug'' then Fix
         else if str_includes lowerMessage ''feat'' then Feature
         else if str_includes lowerMessage ''doc'' then Docs
         else if str_includes lowerMessage ''perf'' then Perf
         else if str_includes lowerMessage ''test'' then Test
         else if str_includes lowerMessage ''build'' \<or> str_includes lowerMessage ''deps'' then Build
         else if str_includes lowerMessage ''refactor'' then Refactor
         else Other)"

definition parseConventionalCommit :: "string \<Rightarrow> Classification" where
  "parseConventionalCommit msg =
     (case conventional_regex msg of
        Some m \<Rightarrow>
          \<lparr>type = mapCommitType (g_type m),
           scope = g_scope m,
           breaking = (g_bang m \<noteq> None \<or> str_includes msg BREAKING_MARKER),
           message = trim (g_msg m),
           description = map_option trim (g_desc m)\<rparr>
      | None \<Rightarrow>
          (let title = hd (split_lines msg);
               descLines = tl (split_lines msg);
               description = trim (join_lines descLines)
           in \<lparr>type = inferType msg,
               scope = None,
               breaking = str_includes msg BREAKING_MARKER,
               message = trim title,
               description = (if description = [] then None else Some description)\<rparr>))"

section \<open>Plain objects used as dictionaries\<close>

text \<open>
  \<open>calculateStats\<close>, \<open>groupCommitsByScope\<close> and \<open>groupCommitsByAuthor\<close> start from
  the literal \<open>{}\<close> and read and write it with computed keys. Such an object has its own
  properties, kept in the order of their creation, and it inherits the properties of
  \<open>Object.prototype\<close>: reading a key it does not own finds the inherited property.
\<close>

type_synonym 'v js_object = "(string \<times> 'v) list"

definition object_prototype_keys :: "string list" where
  "object_prototype_keys =
     [''constructor'', ''__defineGetter__'', ''__defineSetter__'', ''hasOwnProperty'',
      ''__lookupGetter__'', ''__lookupSetter__'', ''isPrototypeOf'',
      ''propertyIsEnumerable'', ''toString'', ''valueOf'', ''__proto__'',
      ''toLocaleString'']"

text \<open>
  What \<open>obj[key]\<close> finds: an own property, an inherited one (a function, or
  \<open>Object.prototype\<close> itself for \<open>__proto__\<close>: truthy in every case), or \<open>undefined\<close>.
\<close>

datatype 'v property = Own 'v | Inherited | Undefined

definition get_property :: "'v js_object \<Rightarrow> string \<Rightarrow> 'v property" where
  "get_property obj k =
     (case map_of obj k of
        Some v \<Rightarrow> Own v
      | None \<Rightarrow> if k \<in> set object_prototype_keys then Inherited else Undefined)"

text \<open>
  \<open>Object.entries\<close> lists the keys that are array indices first, in ascending numeric
  order, then the other keys in the order of their creation. An array index is the
  canonical decimal form of an integer below \<open>2^32 - 1\<close>: digits only, no leading zero
  unless it is \<open>0\<close> itself, and at most \<open>4294967294\<close>. Canonical numerals are compared
  by length first, then digit by digit.
\<close>

definition digit_value :: "char \<Rightarrow> nat option" where
  "digit_value c =
     map_of [(CHR ''0'', 0), (CHR ''1'', 1), (CHR ''2'', 2), (CHR ''3'', 3), (CHR ''4'', 4),
             (CHR ''5'', 5), (CHR ''6'', 6), (CHR ''7'', 7), (CHR ''8'', 8), (CHR ''9'', 9)] c"

fun digits_le :: "string \<Rightarrow> string \<Rightarrow> bool" where
  "digits_le [] b = True"
| "digits_le (x # a) [] = False"
| "digits_le (x # a) (y # b) =
     (case (digit_value x, digit_value y) of
        (Some m, Some n) \<Rightarrow> m < n \<or> (m = n \<and> digits_le a b)
      | _ \<Rightarrow> False)"

definition index_le :: "string \<Rightarrow> string \<Rightarrow> bool" where
  "index_le a b = (length a < length b \<or> (length a = length b \<and> digits_le a b))"

definition array_index :: "string \<Rightarrow> bool" where
  "array_index k =
     (k \<noteq> [] \<and> list_all (\<lambda>c. digit_value c \<noteq> None) k \<and>
      (hd k \<noteq> CHR ''0'' \<or> k = ''0'') \<and> index_le k ''4294967294'')"

fun insert_index :: "string \<times> 'v \<Rightarrow> (string \<times> 'v) list \<Rightarrow> (string \<times> 'v) list" where
  "insert_index e [] = [e]"
| "insert_index e (x # xs) =
     (if index_le (fst e) (fst x) then e # x # xs else x # insert_index e xs)"

definition entries :: "'v js_object \<Rightarrow> (string \<times> 'v) list" where
  "entries obj =
     foldr insert_index (filter (\<lambda>e. array_index (fst e)) obj) [] @
     filter (\<lambda>e. \<not> array_index (fst e)) obj"

section \<open>The parser at run time\<close>

text \<open>What the program raises.\<close>

datatype js_error = TypeError | Error string | RequestError

text \<open>
  \<^const>\<open>parseConventionalCommit\<close> above reads the function with the types its signature
  declares. At run time the declarations are gone: \<open>typeMap[key] || 'other'\<close> is whatever
  the object \<open>typeMap\<close> answers for the key, an inherited property included, and
  \<open>title.trim()\<close> raises a TypeError should the destructuring have left \<open>title\<close>
  undefined. The definitions below read the function that way.
\<close>

datatype type_value = Category CommitType | InheritedProperty string

definition mapCommitType_run :: "string \<Rightarrow> type_value" where
  "mapCommitType_run t =
     (case get_property typeMap (toLowerCase t) of
        Own c \<Rightarrow> Category c
      | Inherited \<Rightarrow> InheritedProperty (toLowerCase t)
      | Undefined \<Rightarrow> Category Other)"

record ParseResult =
  r_type :: type_value
  r_scope :: "string option"
  r_breaking :: bool
  r_message :: string
  r_description :: "string option"

definition parseConventionalCommit_run :: "string \<Rightarrow> js_error + ParseResult" where
  "parseConventionalCommit_run msg =
     (case conventional_regex msg of
        Some m \<Rightarrow>
          Inr \<lparr>r_type = mapCommitType_run (g_type m),
               r_scope = g_scope m,
               r_breaking = (g_bang m \<noteq> None \<or> str_includes msg BREAKING_MARKER),
               r_message = trim (g_msg m),
               r_description = map_option trim (g_desc m)\<rparr>
      | None \<Rightarrow>
          (case split_lines msg of
             [] \<Rightarrow> Inl TypeError
           | title # descLines \<Rightarrow>
               (let description = trim (join_lines descLines)
                in Inr \<lparr>r_type = Category (inferType msg),
                        r_scope = None,
                        r_breaking = str_includes msg BREAKING_MARKER,
                        r_message = trim title,
                        r_description =
                          (if description = [] then None else Some description)\<rparr>)))"

section \<open>Statistics (calculateStats)\<close>

text \<open>
  The counters of \<open>commitsByAuthor\<close> and \<open>commitsByScope\<close> are declared as numbers; what
  \<open>(obj[key] || 0) + 1\<close> stores is a number only when the value read is a number or
  \<open>undefined\<close>. On a string (and on an inherited function or object, which \<open>+\<close> turns into
  its text) \<open>+ 1\<close> appends the character \<open>1\<close>.
\<close>

datatype js_value = JNumber nat | JString string

text \<open>The text of an inherited property, as \<open>+\<close> sees it.\<close>

definition inherited_text :: "string \<Rightarrow> string" where
  "inherited_text k =
     (if k = ''__proto__'' then ''[object Object]''
      else ''function '' @ (if k = ''constructor'' then ''Object'' else k) @
           ''() { [native code] }'')"

text \<open>
  \<open>obj[k] = (obj[k] || 0) + 1\<close>. Assigning a string to \<open>__proto__\<close> runs the setter of
  \<open>Object.prototype\<close>, which ignores a value that is not an object: nothing is stored.
\<close>

definition count_up :: "js_value js_object \<Rightarrow> string \<Rightarrow> js_value js_object" where
  "count_up obj k =
     (let v = (case get_property obj k of
                 Own (JNumber n) \<Rightarrow> JNumber (n + 1)
               | Own (JString s) \<Rightarrow> if s = [] then JNumber 1 else JString (s @ ''1'')
               | Inherited \<Rightarrow> JString (inherited_text k @ ''1'')
               | Undefined \<Rightarrow> JNumber 1)
      in if k = ''__proto__'' then obj else AList.update k v obj)"

text \<open>An optional string in a condition: \<open>undefined\<close> and the empty string are falsy.\<close>

definition truthy :: "string option \<Rightarrow> bool" where
  "truthy s = (case s of Some t \<Rightarrow> t \<noteq> [] | None \<Rightarrow> False)"

record CommitStats =
  totalCommits :: nat
  commitsByType :: "(CommitType \<times> nat) list"
  commitsByAuthor :: "js_value js_object"
  commitsByScope :: "js_value js_object"
  breakingChanges :: nat

text \<open>The body of the loop of \<open>calculateStats\<close>.\<close>

definition count_commit :: "CommitStats \<Rightarrow> ParsedCommit \<Rightarrow> CommitStats" where
  "count_commit st c =
     st\<lparr>commitsByType := AList.map_entry (type c) Suc (commitsByType st),
        commitsByAuthor := count_up (commitsByAuthor st) (author c),
        commitsByScope :=
          (case scope c of
             Some sc \<Rightarrow> if sc = [] then commitsByScope st else count_up (commitsByScope st) sc
           | None \<Rightarrow> commitsByScope st),
        breakingChanges :=
          (if breaking c then breakingChanges st + 1 else breakingChanges st)\<rparr>"

definition calculateStats :: "ParsedCommit list \<Rightarrow> CommitStats" where
  "calculateStats commits =
     foldl count_commit
       \<lparr>totalCommits = length commits,
        commitsByType = map (\<lambda>t. (t, 0)) all_commit_types,
        commitsByAuthor = [],
        commitsByScope = [],
        breakingChanges = 0\<rparr>
       commits"

section \<open>Grouping\<close>

text \<open>The string each member of \<open>CommitType\<close> is.\<close>

fun commit_type_name :: "CommitType \<Rightarrow> string" where
  "commit_type_name Breaking = ''breaking''"
| "commit_type_name Feature = ''feature''"
| "commit_type_name Fix = ''fix''"
| "commit_type_name Docs = ''docs''"
| "commit_type_name Perf = ''perf''"
| "commit_type_name Refactor = ''refactor''"
| "commit_type_name Test = ''test''"
| "commit_type_name Build = ''build''"
| "commit_type_name Other = ''other''"

text \<open>
  \<open>groupCommitsByType\<close> starts from an object that owns all nine keys, so every push
  finds an array.
\<close>

definition group_key_by_type :: "ParsedCommit \<Rightarrow> string" where
  "group_key_by_type c = commit_type_name (if breaking c then Breaking else type c)"

definition groupCommitsByType :: "ParsedCommit list \<Rightarrow> ParsedCommit list js_object" where
  "groupCommitsByType commits =
     foldl (\<lambda>grouped c. AList.map_entry (group_key_by_type c) (\<lambda>cs. cs @ [c]) grouped)
       (map (\<lambda>t. (commit_type_name t, [])) all_commit_types)
       commits"

text \<open>
  \<open>if (!grouped[key]) grouped[key] = []; grouped[key].push(commit)\<close> on an object that
  started empty. An inherited property is truthy, so no array is created for its key, and
  it has no \<open>push\<close>: the call raises a TypeError.
\<close>

definition push_commit ::
  "ParsedCommit list js_object \<Rightarrow> string \<Rightarrow> ParsedCommit \<Rightarrow>
     js_error + ParsedCommit list js_object" where
  "push_commit grouped k c =
     (case get_property grouped k of
        Own cs \<Rightarrow> Inr (AList.update k (cs @ [c]) grouped)
      | Undefined \<Rightarrow> Inr (AList.update k [c] grouped)
      | Inherited \<Rightarrow> Inl TypeError)"

fun group_commits ::
  "(ParsedCommit \<Rightarrow> string) \<Rightarrow> ParsedCommit list js_object \<Rightarrow> ParsedCommit list \<Rightarrow>
     js_error + ParsedCommit list js_object" where
  "group_commits key grouped [] = Inr grouped"
| "group_commits key grouped (c # cs) =
     (case push_commit grouped (key c) c of
        Inl e \<Rightarrow> Inl e
      | Inr grouped' \<Rightarrow> group_commits key grouped' cs)"

definition scope_key :: "ParsedCommit \<Rightarrow> string" where
  "scope_key c =
     (case scope c of
        Some sc \<Rightarrow> if sc = [] then ''other'' else sc
      | None \<Rightarrow> ''other'')"

definition groupCommitsByScope ::
  "ParsedCommit list \<Rightarrow> js_error + ParsedCommit list js_object" where
  "groupCommitsByScope commits = group_commits scope_key [] commits"

definition groupCommitsByAuthor ::
  "ParsedCommit list \<Rightarrow> js_error + ParsedCommit list js_object" where
  "groupCommitsByAuthor commits = group_commits author [] commits"

section \<open>Rendering (releaseNotes.ts)\<close>

text \<open>
  The emoji are outside ASCII; each is written as the bytes of its UTF-8 form. No
  function of the program looks inside them.
\<close>

definition EMOJI_MAP :: "(string \<times> string) list" where
  "EMOJI_MAP =
     [(''breaking'', [CHR 0xE2, CHR 0x9A, CHR 0xA0, CHR 0xEF, CHR 0xB8, CHR 0x8F]),
      (''feature'', [CHR 0xF0, CHR 0x9F, CHR 0x9A, CHR 0x80]),
      (''fix'', [CHR 0xF0, CHR 0x9F, CHR 0x90, CHR 0x9B]),
      (''docs'', [CHR 0xF0, CHR 0x9F, CHR 0x93, CHR 0x9A]),
      (''perf'', [CHR 0xE2, CHR 0x9A, CHR 0xA1]),
      (''refactor'', [CHR 0xE2, CHR 0x99, CHR 0xBB, CHR 0xEF, CHR 0xB8, CHR 0x8F]),
      (''test'', [CHR 0xF0, CHR 0x9F, CHR 0xA7, CHR 0xAA]),
      (''build'', [CHR 0xF0, CHR 0x9F, CHR 0x8F, CHR 0x97, CHR 0xEF, CHR 0xB8, CHR 0x8F]),
      (''other'', [CHR 0xF0, CHR 0x9F, CHR 0x94, CHR 0xA7])]"

definition PACKAGE_EMOJI :: string where
  "PACKAGE_EMOJI = [CHR 0xF0, CHR 0x9F, CHR 0x93, CHR 0xA6]"

definition PERSON_EMOJI :: string where
  "PERSON_EMOJI = [CHR 0xF0, CHR 0x9F, CHR 0x91, CHR 0xA4]"

definition CHART_EMOJI :: string where
  "CHART_EMOJI = [CHR 0xF0, CHR 0x9F, CHR 0x93, CHR 0x8A]"

text \<open>\<open>EMOJI_MAP[name]\<close> inside a template literal; the program reads it at type names only.\<close>

definition emoji :: "string \<Rightarrow> string" where
  "emoji name = (case map_of EMOJI_MAP name of Some e \<Rightarrow> e | None \<Rightarrow> ''undefined'')"

text \<open>
  A number inside a template literal: its decimal digits. This is what the program prints
  for the integers below \<open>10^21\<close>; from there on it prints an exponent form, which is
  outside the model.
\<close>

fun string_of_nat :: "nat \<Rightarrow> string" where
  "string_of_nat n =
     (if n < 10 then [''0123456789'' ! n]
      else string_of_nat (n div 10) @ [''0123456789'' ! (n mod 10)])"

declare string_of_nat.simps [simp del]

definition string_of_value :: "js_value \<Rightarrow> string" where
  "string_of_value v = (case v of JNumber n \<Rightarrow> string_of_nat n | JString s \<Rightarrow> s)"

definition formatCommit :: "ParsedCommit \<Rightarrow> bool \<Rightarrow> string" where
  "formatCommit c includeScope =
     (let scope_part =
            (if truthy (scope c) \<and> includeScope
             then ''('' @ (case scope c of Some sc \<Rightarrow> sc | None \<Rightarrow> []) @ '') '' else []);
          prLink =
            (case prNumber c of
               Some n \<Rightarrow> if n = 0 then [] else '' (#'' @ string_of_nat n @ '')''
             | None \<Rightarrow> []);
          breaking_part = (if breaking c then '' [BREAKING]'' else [])
      in emoji (commit_type_name (type c)) @ '' '' @ scope_part @ message c @
         breaking_part @ prLink)"

text \<open>\<open>description.replace(/\n/g, '\n  - ')\<close>\<close>

definition indent_description :: "string \<Rightarrow> string" where
  "indent_description d = concat (map (\<lambda>c. if c = NL then NL # ''  - '' else [c]) d)"

text \<open>The lines one commit adds to the document.\<close>

definition commit_lines :: "bool \<Rightarrow> ParsedCommit \<Rightarrow> string list" where
  "commit_lines includeScope c =
     (''- '' @ formatCommit c includeScope) #
     (case description c of
        Some d \<Rightarrow> if d = [] then [] else [''  - '' @ indent_description d]
      | None \<Rightarrow> [])"

text \<open>
  \<open>ReleaseNotes\<close>; its fields carry the prefix \<open>rn_\<close>, since \<open>date\<close> and
  \<open>breakingChanges\<close> are fields of other records already.
\<close>

record ReleaseNotes =
  rn_version :: "string option"
  rn_date :: string
  rn_breakingChanges :: "ParsedCommit list"
  rn_commits :: "ParsedCommit list"
  rn_stats :: "CommitStats option"

datatype GroupBy = ByType | ByScope | ByAuthor

text \<open>
  What the program takes from its environment: the clock (\<open>new Date().toISOString()\<close>),
  the formatting of a date as \<open>yyyy-MM-dd\<close> in the time zone of the process (date-fns),
  and \<open>JSON.stringify(releaseNotes, null, 2)\<close>.
\<close>

record Env =
  now :: string
  format_date :: "string \<Rightarrow> string"
  json_stringify :: "ReleaseNotes \<Rightarrow> string"

text \<open>The \<open>switch\<close> that groups the commits of the document.\<close>

definition grouped_commits ::
  "GroupBy \<Rightarrow> ParsedCommit list \<Rightarrow> js_error + ParsedCommit list js_object" where
  "grouped_commits groupBy commits =
     (case groupBy of
        ByType \<Rightarrow> Inr (groupCommitsByType commits)
      | ByScope \<Rightarrow> groupCommitsByScope commits
      | ByAuthor \<Rightarrow> groupCommitsByAuthor commits)"

text \<open>
  The groups that get a section: the loop over \<open>Object.entries(groupedCommits)\<close> with its
  two \<open>continue\<close> statements.
\<close>

definition sections :: "ParsedCommit list js_object \<Rightarrow> (string \<times> ParsedCommit list) list" where
  "sections grouped =
     filter (\<lambda>(name, commits). commits \<noteq> [] \<and> name \<noteq> ''breaking'') (entries grouped)"

definition to_upper_char :: "char \<Rightarrow> char" where
  "to_upper_char c =
     (case map_of (zip ''abcdefghijklmnopqrstuvwxyz'' ''ABCDEFGHIJKLMNOPQRSTUVWXYZ'') c of
        Some d \<Rightarrow> d
      | None \<Rightarrow> c)"

text \<open>\<open>group.charAt(0).toUpperCase() + group.slice(1)\<close>\<close>

definition capitalize :: "string \<Rightarrow> string" where
  "capitalize g = (case g of [] \<Rightarrow> [] | c # cs \<Rightarrow> to_upper_char c # cs)"

definition sectionTitle :: "GroupBy \<Rightarrow> string \<Rightarrow> string" where
  "sectionTitle groupBy name =
     (case groupBy of
        ByType \<Rightarrow> ''## '' @ emoji name @ '' '' @ capitalize name
      | ByScope \<Rightarrow> ''## '' @ PACKAGE_EMOJI @ '' '' @ name
      | ByAuthor \<Rightarrow> ''## '' @ PERSON_EMOJI @ '' '' @ name)"

definition section_lines :: "GroupBy \<Rightarrow> string \<times> ParsedCommit list \<Rightarrow> string list" where
  "section_lines groupBy sec =
     (sectionTitle groupBy (fst sec) @ [NL]) #
     concat (map (commit_lines (groupBy \<noteq> ByScope)) (snd sec)) @ [[]]"

text \<open>
  \<open>entries.sort(([, a], [, b]) => b - a)\<close>: an insertion sort with that comparator. An
  entry moves left past a neighbour only when the comparator puts it first, that is when
  both counts are numbers and its own is the larger; a count that is not a number makes
  the comparator yield \<open>NaN\<close>, which orders nothing, and the entry stays where it is. On
  numbers this is the stable sort by descending count. The accumulator holds the sorted
  part in reverse.
\<close>

definition sorts_before :: "string \<times> js_value \<Rightarrow> string \<times> js_value \<Rightarrow> bool" where
  "sorts_before e x =
     (case (snd e, snd x) of
        (JNumber a, JNumber b) \<Rightarrow> b < a
      | _ \<Rightarrow> False)"

fun insert_by_count ::
  "string \<times> js_value \<Rightarrow> (string \<times> js_value) list \<Rightarrow> (string \<times> js_value) list" where
  "insert_by_count e [] = [e]"
| "insert_by_count e (x # xs) =
     (if sorts_before e x then x # insert_by_count e xs else e # x # xs)"

definition sort_by_count :: "(string \<times> js_value) list \<Rightarrow> (string \<times> js_value) list" where
  "sort_by_count es = rev (foldl (\<lambda>sorted e. insert_by_count e sorted) [] es)"

definition stats_lines :: "CommitStats \<Rightarrow> string list" where
  "stats_lines st =
     [''## '' @ CHART_EMOJI @ '' Detailed Statistics'' @ [NL], ''### Commits by Type''] @
     map (\<lambda>(t, n). ''- '' @ emoji (commit_type_name t) @ '' '' @ commit_type_name t @ '': '' @
                    string_of_nat n)
       (filter (\<lambda>(t, n). n > 0) (commitsByType st)) @
     (if commitsByScope st \<noteq> [] then
        (NL # ''### Commits by Scope'') #
        map (\<lambda>(k, v). ''- '' @ PACKAGE_EMOJI @ '' '' @ k @ '': '' @ string_of_value v)
          (sort_by_count (entries (commitsByScope st)))
      else []) @
     (NL # ''### Commits by Author'') #
     map (\<lambda>(k, v). ''- '' @ PERSON_EMOJI @ '' '' @ k @ '': '' @ string_of_value v)
       (sort_by_count (entries (commitsByAuthor st)))"

definition header_lines :: "Env \<Rightarrow> ReleaseNotes \<Rightarrow> string list" where
  "header_lines env rn =
     [''# Release Notes'' @
        (if truthy (rn_version rn)
         then '' ('' @ (case rn_version rn of Some v \<Rightarrow> v | None \<Rightarrow> []) @ '')'' else []),
      ''> Generated on '' @ format_date env (rn_date rn),
      (case rn_stats rn of
         Some st \<Rightarrow>
           ''> Total Commits: '' @ string_of_nat (totalCommits st) @
           '' | Breaking Changes: '' @ string_of_nat (breakingChanges st) @ [NL]
       | None \<Rightarrow> [])]"

text \<open>The breaking-changes section, for the list \<open>releaseNotes.breakingChanges\<close>.\<close>

definition breaking_lines :: "ParsedCommit list \<Rightarrow> string list" where
  "breaking_lines cs =
     (if cs \<noteq> [] then
        (''## '' @ emoji ''breaking'' @ '' Breaking Changes'' @ [NL]) #
        concat (map (commit_lines True) cs) @ [[]]
      else [])"

definition generateMarkdown :: "Env \<Rightarrow> ReleaseNotes \<Rightarrow> GroupBy \<Rightarrow> js_error + string" where
  "generateMarkdown env rn groupBy =
     (case grouped_commits groupBy (rn_commits rn) of
        Inl e \<Rightarrow> Inl e
      | Inr grouped \<Rightarrow>
          Inr (join_lines
                 (header_lines env rn @
                  breaking_lines (rn_breakingChanges rn) @
                  concat (map (section_lines groupBy) (sections grouped)) @
                  (case rn_stats rn of Some st \<Rightarrow> stats_lines st | None \<Rightarrow> []))))"

text \<open>
  \<open>.replace(/^#+\s*/gm, '')\<close> and \<open>.replace(/^[-*]\s*/gm, '')\<close>: a scan that removes, at
  the start of every line, a marker and the white space after it. \<open>\s*\<close> also takes line
  breaks, after which the next position starts a line again.
\<close>

datatype scan_state = LineStart | InLine | InMarker | InSpace bool

fun in_space :: "scan_state \<Rightarrow> bool" where
  "in_space (InSpace b) = True"
| "in_space st = False"

fun strip_markers :: "(char \<Rightarrow> bool) \<Rightarrow> bool \<Rightarrow> scan_state \<Rightarrow> string \<Rightarrow> string" where
  "strip_markers marker many st [] = []"
| "strip_markers marker many st (c # cs) =
     (let at_start = (st = LineStart \<or> st = InSpace True)
      in if st = InMarker \<and> many \<and> marker c then strip_markers marker many InMarker cs
         else if (st = InMarker \<or> in_space st) \<and> white_space c
           then strip_markers marker many (InSpace (line_terminator c)) cs
         else if at_start \<and> marker c then strip_markers marker many InMarker cs
         else c # strip_markers marker many (if line_terminator c then LineStart else InLine) cs)"

definition generatePlainText :: "Env \<Rightarrow> ReleaseNotes \<Rightarrow> GroupBy \<Rightarrow> js_error + string" where
  "generatePlainText env rn groupBy =
     (case generateMarkdown env rn groupBy of
        Inl e \<Rightarrow> Inl e
      | Inr md \<Rightarrow>
          Inr (trim
                 (strip_markers (\<lambda>c. c = CHR ''-'' \<or> c = CHR ''*'') False LineStart
                    (strip_markers (\<lambda>c. c = CHR ''#'') True LineStart md))))"

text \<open>
  The options of \<open>generateReleaseNotes\<close>, each optional. \<open>format\<close> is a string: the
  \<open>switch\<close> has a \<open>default\<close> branch for a value outside its type.
\<close>

record Options =
  o_version :: "string option"
  o_groupBy :: "GroupBy option"
  o_format :: "string option"
  o_includeStats :: "bool option"
  o_template :: "string option"

text \<open>The document the function assembles before it renders.\<close>

definition releaseNotes_of :: "Env \<Rightarrow> ParsedCommit list \<Rightarrow> Options \<Rightarrow> ReleaseNotes" where
  "releaseNotes_of env commits options =
     \<lparr>rn_version = o_version options,
      rn_date = now env,
      rn_breakingChanges = filter breaking commits,
      rn_commits = filter (\<lambda>c. \<not> breaking c) commits,
      rn_stats =
        (if (case o_includeStats options of Some b \<Rightarrow> b | None \<Rightarrow> False)
         then Some (calculateStats commits) else None)\<rparr>"

definition generateReleaseNotes ::
  "Env \<Rightarrow> ParsedCommit list \<Rightarrow> Options \<Rightarrow> js_error + string" where
  "generateReleaseNotes env commits options =
     (let groupBy = (case o_groupBy options of Some g \<Rightarrow> g | None \<Rightarrow> ByType);
          format = (case o_format options of Some f \<Rightarrow> f | None \<Rightarrow> ''markdown'');
          releaseNotes = releaseNotes_of env commits options
      in if format = ''markdown'' then generateMarkdown env releaseNotes groupBy
         else if format = ''json'' then Inr (json_stringify env releaseNotes)
         else if format = ''text'' then generatePlainText env releaseNotes groupBy
         else Inl (Error (''Unsupported format: '' @ format)))"

section \<open>Enrichment (enrichCommitsWithPRData)\<close>

record PullRequest =
  number :: nat
  title :: string
  body :: "string option"
  labels :: "string list"

text \<open>
  \<open>labels.some(l => l.includes(needle))\<close> over the lower-cased label names.
\<close>

definition some_label :: "string list \<Rightarrow> string \<Rightarrow> bool" where
  "some_label ls needle = list_ex (\<lambda>l. str_includes l needle) ls"

text \<open>
  The body of the loop, once the pull request of a commit is there, is three steps. The
  first: \<open>if (commit.type === 'other') { ... }\<close>, the labels.
\<close>

definition apply_labels :: "PullRequest \<Rightarrow> ParsedCommit \<Rightarrow> ParsedCommit" where
  "apply_labels pr c =
     (if type c = Other then
        (let ls = map toLowerCase (labels pr);
             c0 = (if some_label ls ''breaking'' then c\<lparr>breaking := True\<rparr> else c)
         in if some_label ls ''feature'' then c0\<lparr>type := Feature\<rparr>
            else if some_label ls ''bug'' \<or> some_label ls ''fix'' then c0\<lparr>type := Fix\<rparr>
            else if some_label ls ''doc'' then c0\<lparr>type := Docs\<rparr>
            else if some_label ls ''perf'' then c0\<lparr>type := Perf\<rparr>
            else if some_label ls ''refactor'' then c0\<lparr>type := Refactor\<rparr>
            else if some_label ls ''test'' then c0\<lparr>type := Test\<rparr>
            else if some_label ls ''build'' then c0\<lparr>type := Build\<rparr>
            else c0)
      else c)"

text \<open>\<open>if (commit.message.length < pr.title.length) commit.message = pr.title\<close>\<close>

definition apply_title :: "PullRequest \<Rightarrow> ParsedCommit \<Rightarrow> ParsedCommit" where
  "apply_title pr c =
     (if length (message c) < length (title pr) then c\<lparr>message := title pr\<rparr> else c)"

text \<open>\<open>if (!commit.description && pr.body) commit.description = pr.body\<close>\<close>

definition apply_body :: "PullRequest \<Rightarrow> ParsedCommit \<Rightarrow> ParsedCommit" where
  "apply_body pr c =
     (if \<not> truthy (description c) \<and> truthy (body pr) then c\<lparr>description := body pr\<rparr>
      else c)"

definition mergePR :: "PullRequest \<Rightarrow> ParsedCommit \<Rightarrow> ParsedCommit" where
  "mergePR pr c = apply_body pr (apply_title pr (apply_labels pr c))"

text \<open>
  \<open>fetchPullRequest\<close> answers with the pull request, with \<open>null\<close> on a 404, or raises what
  the request raised. The loop updates each commit object in place and awaits the requests
  one after the other; here it returns the updated commits, or the error of the first
  request that failed.
\<close>

datatype fetch_result = Found PullRequest | NotFound | Failed

definition enrich_commit :: "(nat \<Rightarrow> fetch_result) \<Rightarrow> ParsedCommit \<Rightarrow> js_error + ParsedCommit" where
  "enrich_commit fetchPullRequest c =
     (case prNumber c of
        None \<Rightarrow> Inr c
      | Some n \<Rightarrow>
          if n = 0 then Inr c
          else (case fetchPullRequest n of
                  Failed \<Rightarrow> Inl RequestError
                | NotFound \<Rightarrow> Inr c
                | Found pr \<Rightarrow> Inr (mergePR pr c)))"

fun enrichCommitsWithPRData ::
  "(nat \<Rightarrow> fetch_result) \<Rightarrow> ParsedCommit list \<Rightarrow> js_error + ParsedCommit list" where
  "enrichCommitsWithPRData fetchPullRequest [] = Inr []"
| "enrichCommitsWithPRData fetchPullRequest (c # cs) =
     (case enrich_commit fetchPullRequest c of
        Inl e \<Rightarrow> Inl e
      | Inr c' \<Rightarrow>
          (case enrichCommitsWithPRData fetchPullRequest cs of
             Inl e \<Rightarrow> Inl e
           | Inr cs' \<Rightarrow> Inr (c' # cs')))"

section \<open>Notions used in the statements and their proofs\<close>

subsection \<open>The text a match stands for\<close>

text \<open>
  The pieces of the grammar \<open><token>[(<scope>)][!]: <title>\<close>, optionally followed by a
  blank line and a body, written back as text from the groups of a match.
\<close>

definition scope_text :: "string option \<Rightarrow> string" where
  "scope_text sc = (case sc of None \<Rightarrow> [] | Some s \<Rightarrow> ''('' @ s @ '')'')"

definition bang_text :: "string option \<Rightarrow> string" where
  "bang_text b = (case b of None \<Rightarrow> [] | Some s \<Rightarrow> s)"

definition desc_text :: "string option \<Rightarrow> string" where
  "desc_text d = (case d of None \<Rightarrow> [] | Some s \<Rightarrow> NL # NL # s)"

definition grammar_text :: "RegexMatch \<Rightarrow> string \<Rightarrow> string" where
  "grammar_text m ws =
     g_type m @ scope_text (g_scope m) @ bang_text (g_bang m) @ CHR '':'' # ws @
     g_msg m @ desc_text (g_desc m)"

text \<open>
  The shape the grammar asks of its parts: a scope is not empty and has no closing
  parenthesis, the breaking indicator is one \<open>!\<close>, and the title is not empty and stays
  on one line.
\<close>

definition valid_scope :: "string option \<Rightarrow> bool" where
  "valid_scope sc = (case sc of None \<Rightarrow> True | Some s \<Rightarrow> s \<noteq> [] \<and> CHR '')'' \<notin> set s)"

definition valid_bang :: "string option \<Rightarrow> bool" where
  "valid_bang b = (b = None \<or> b = Some ''!'')"

definition valid_title :: "string \<Rightarrow> bool" where
  "valid_title t = (t \<noteq> [] \<and> list_all (\<lambda>c. \<not> line_terminator c) t)"

subsection \<open>The mapping from tokens to categories, as the specification words it\<close>

text \<open>
  \<open>feat\<close> maps to \<open>feature\<close>, \<open>chore\<close> maps to \<open>other\<close>, every other recognised token
  maps to the category of the same name, and an unrecognised token to \<open>other\<close>.
\<close>

definition token_category :: "string \<Rightarrow> CommitType" where
  "token_category tok =
     (if tok = ''feat'' then Feature
      else if tok = ''chore'' then Other
      else (case find (\<lambda>c. commit_type_name c = tok) all_commit_types of
              Some c \<Rightarrow> c
            | None \<Rightarrow> Other))"

subsection \<open>Inference by priority, as the specification words it\<close>

text \<open>
  A needle occurs in a message without regard to case: at some position the message
  continues with the needle, letters compared case-insensitively.
\<close>

fun ci_occurs :: "string \<Rightarrow> string \<Rightarrow> bool" where
  "ci_occurs needle [] = (needle = [])"
| "ci_occurs needle (c # cs) = (match_literal_ci needle (c # cs) \<noteq> None \<or> ci_occurs needle cs)"

text \<open>The priority order after the breaking marker: the first entry with a hit wins.\<close>

definition inference_priority :: "(string list \<times> CommitType) list" where
  "inference_priority =
     [([''fix'', ''bug''], Fix), ([''feat''], Feature), ([''doc''], Docs), ([''perf''], Perf),
      ([''test''], Test), ([''build'', ''deps''], Build), ([''refactor''], Refactor)]"

definition hits :: "string \<Rightarrow> string list \<times> CommitType \<Rightarrow> bool" where
  "hits msg entry = list_ex (\<lambda>needle. ci_occurs needle msg) (fst entry)"

definition priority_category :: "string \<Rightarrow> CommitType" where
  "priority_category msg =
     (if sublist BREAKING_MARKER msg then Breaking
      else (case find (hits msg) inference_priority of
              Some entry \<Rightarrow> snd entry
            | None \<Rightarrow> Other))"

subsection \<open>Concrete inputs\<close>

text \<open>A commit, a pull request, a lookup that knows it, and an environment, for examples.\<close>

definition sample_commit :: ParsedCommit where
  "sample_commit =
     \<lparr>type = Fix, scope = Some ''api'', breaking = False, message = ''fix typo'',
      description = None, sha = ''3f2a9c1'', author = ''ann'',
      date = ''2024-04-30T09:15:00Z'', prNumber = Some 42,
      commitUrl = ''https://example.org/commit/3f2a9c1''\<rparr>"

definition sample_pr :: PullRequest where
  "sample_pr =
     \<lparr>number = 42, title = ''Fix typo in the installation guide'',
      body = Some ''Closes the report about the guide.'',
      labels = [''Bug'', ''Breaking-Change'']\<rparr>"

definition sample_fetch :: "nat \<Rightarrow> fetch_result" where
  "sample_fetch n = (if n = 42 then Found sample_pr else NotFound)"

definition sample_env :: Env where
  "sample_env =
     \<lparr>now = ''2024-05-01T10:00:00.000Z'',
      format_date = take 10,
      json_stringify = (\<lambda>rn. ''{}'')\<rparr>"

definition sample_options :: "GroupBy \<Rightarrow> string \<Rightarrow> Options" where
  "sample_options groupBy format =
     \<lparr>o_version = None, o_groupBy = Some groupBy, o_format = Some format,
      o_includeStats = None, o_template = None\<rparr>"

subsection \<open>The sum of a table of counters\<close>

text \<open>The sum of the counts of a table, when every count is a number.\<close>

fun numeric_total :: "js_value js_object \<Rightarrow> nat option" where
  "numeric_total [] = Some 0"
| "numeric_total ((k, JNumber n) # es) = map_option (\<lambda>total. n + total) (numeric_total es)"
| "numeric_total ((k, JString s) # es) = None"

subsection \<open>Buckets\<close>

text \<open>Every member of a bucket has the key of the bucket and comes from a given set.\<close>

definition buckets_ok ::
  "(ParsedCommit \<Rightarrow> string) \<Rightarrow> ParsedCommit set \<Rightarrow> ParsedCommit list js_object \<Rightarrow> bool" where
  "buckets_ok key S grouped = (\<forall>p\<in>set grouped. \<forall>x\<in>set (snd p). key x = fst p \<and> x \<in> S)"

text \<open>The key under which each grouping mode files a commit.\<close>

definition group_key :: "GroupBy \<Rightarrow> ParsedCommit \<Rightarrow> string" where
  "group_key groupBy =
     (case groupBy of
        ByType \<Rightarrow> group_key_by_type
      | ByScope \<Rightarrow> scope_key
      | ByAuthor \<Rightarrow> author)"

text \<open>A commit sits in the bucket of a key.\<close>

definition in_bucket :: "ParsedCommit list js_object \<Rightarrow> string \<Rightarrow> ParsedCommit \<Rightarrow> bool" where
  "in_bucket grouped k c = (case map_of grouped k of Some v \<Rightarrow> c \<in> set v | None \<Rightarrow> False)"

text \<open>No own key of the object is the name of an inherited property.\<close>

definition own_clean :: "'v js_object \<Rightarrow> bool" where
  "own_clean obj = list_all (\<lambda>p. fst p \<notin> set object_prototype_keys) obj"

text \<open>
  The commits that make a grouping fail: a non-breaking commit whose scope (when grouping
  by scope) or author (when grouping by author) is the name of an inherited property.
\<close>

definition clashes :: "GroupBy \<Rightarrow> ParsedCommit \<Rightarrow> bool" where
  "clashes groupBy c =
     (\<not> breaking c \<and> groupBy \<noteq> ByType \<and> group_key groupBy c \<in> set object_prototype_keys)"

definition format_of :: "Options \<Rightarrow> string" where
  "format_of options = (case o_format options of Some f \<Rightarrow> f | None \<Rightarrow> ''markdown'')"

definition groupBy_of :: "Options \<Rightarrow> GroupBy" where
  "groupBy_of options = (case o_groupBy options of Some g \<Rightarrow> g | None \<Rightarrow> ByType)"

subsection \<open>Plain text\<close>

text \<open>What \<open>generatePlainText\<close> makes of a markdown text.\<close>

definition plain_text :: "string \<Rightarrow> string" where
  "plain_text md =
     trim (strip_markers (\<lambda>c. c = CHR ''-'' \<or> c = CHR ''*'') False LineStart
             (strip_markers (\<lambda>c. c = CHR ''#'') True LineStart md))"

subsection \<open>The statistics part of a document\<close>

definition includeStats_of :: "Options \<Rightarrow> bool" where
  "includeStats_of options = (case o_includeStats options of Some b \<Rightarrow> b | None \<Rightarrow> False)"

definition stats_part :: "Options \<Rightarrow> ParsedCommit list \<Rightarrow> string list" where
  "stats_part options commits =
     (if includeStats_of options then stats_lines (calculateStats commits) else [])"

text \<open>
  The commits that are left when those are dropped which are not flagged breaking and whose
  bucket is named \<open>breaking\<close>.
\<close>

definition without_breaking_named :: "GroupBy \<Rightarrow> ParsedCommit list \<Rightarrow> ParsedCommit list" where
  "without_breaking_named groupBy commits =
     filter (\<lambda>c. breaking c \<or> group_key groupBy c \<noteq> ''breaking'') commits"

text \<open>The line that lists a commit, in the breaking-changes section and in a grouped one.\<close>

definition breaking_line :: "ParsedCommit \<Rightarrow> string" where
  "breaking_line c = ''- '' @ formatCommit c True"

definition grouped_line :: "GroupBy \<Rightarrow> ParsedCommit \<Rightarrow> string" where
  "grouped_line groupBy c = ''- '' @ formatCommit c (groupBy \<noteq> ByScope)"

section \<open>Facts about strings\<close>

lemma str_includes_sublist: "str_includes s n = sublist n s"
  by (induction s) (simp_all add: sublist_Cons_right)

lemma str_includes_iff: "str_includes s n \<longleftrightarrow> (\<exists>p q. s = p @ n @ q)"
  by (simp add: str_includes_sublist sublist_def)

lemma split_lines_nonempty: "split_lines s \<noteq> []"
  by (induction s) (auto split: list.splits)

lemma hd_split_lines: "hd (split_lines s) = takeWhile (\<lambda>c. c \<noteq> NL) s"
  by (induction s) (auto split: list.splits simp: split_lines_nonempty)

lemma trim_empty_iff: "trim s = [] \<longleftrightarrow> list_all white_space s"
proof -
  have "set s = set (takeWhile white_space s) \<union> set (dropWhile white_space s)"
    by (metis set_append takeWhile_dropWhile_id)
  moreover have "\<forall>x\<in>set (takeWhile white_space s). white_space x"
    by (auto dest: set_takeWhileD)
  ultimately show ?thesis
    by (auto simp: trim_def list_all_iff)
qed

lemma toLowerCase_append: "toLowerCase (a @ b) = toLowerCase a @ toLowerCase b"
  by (simp add: toLowerCase_def)

lemma toLowerCase_take: "toLowerCase (take n s) = take n (toLowerCase s)"
  by (simp add: toLowerCase_def take_map)

lemma length_toLowerCase: "length (toLowerCase s) = length s"
  by (simp add: toLowerCase_def)

section \<open>The regular expression: what a match says about the message\<close>

lemma orelse_Some: "orelse a b = Some x \<Longrightarrow> a = Some x \<or> (a = None \<and> b = Some x)"
  by (cases a) auto

lemma first_success_Some:
  "first_success f xs = Some y \<Longrightarrow> \<exists>x\<in>set xs. f x = Some y"
  by (induction xs) (auto dest!: orelse_Some)

lemma first_success_only:
  "x \<in> set xs \<Longrightarrow> (\<And>y. y \<in> set xs \<Longrightarrow> y \<noteq> x \<Longrightarrow> f y = None) \<Longrightarrow> first_success f xs = f x"
proof (induction xs)
  case Nil
  then show ?case by simp
next
  case (Cons a xs)
  show ?case
  proof (cases "a = x")
    case True
    show ?thesis
    proof (cases "f x")
      case None
      have "first_success f xs = None"
      proof (rule ccontr)
        assume "first_success f xs \<noteq> None"
        then obtain y where "first_success f xs = Some y" by auto
        from first_success_Some [OF this] obtain z where z: "z \<in> set xs" "f z = Some y" by blast
        with None have "z \<noteq> x" by auto
        with Cons.prems(2) [of z] z show False by simp
      qed
      with True None show ?thesis by simp
    next
      case (Some v)
      with True show ?thesis by simp
    qed
  next
    case False
    with Cons.prems have "f a = None" "x \<in> set xs" by auto
    with Cons.IH Cons.prems(2) show ?thesis by simp
  qed
qed

lemma match_body_sound:
  assumes "match_body r = Some (m, d)"
  shows "m \<noteq> [] \<and> r = m @ desc_text d \<and> list_all (\<lambda>c. \<not> line_terminator c) m"
proof -
  let ?m = "takeWhile (\<lambda>c. \<not> line_terminator c) r"
  let ?rest = "dropWhile (\<lambda>c. \<not> line_terminator c) r"
  have split: "r = ?m @ ?rest" by simp
  have all: "list_all (\<lambda>c. \<not> line_terminator c) ?m"
    by (auto simp: list_all_iff dest: set_takeWhileD)
  from assms have m: "m = ?m" and ne: "?m \<noteq> []"
    by (auto simp: match_body_def Let_def split: if_splits)
  from assms have "?rest = desc_text d"
    by (auto simp: match_body_def Let_def desc_text_def prefix_def split: if_splits)
  with split m ne all show ?thesis by metis
qed

lemma match_ws_body_sound:
  "match_ws_body r = Some (m, d) \<Longrightarrow>
     \<exists>ws. r = ws @ m @ desc_text d \<and> list_all white_space ws \<and> m \<noteq> []"
proof (induction r)
  case Nil
  then show ?case by (simp add: match_body_def)
next
  case (Cons c cs)
  show ?case
  proof (cases "white_space c \<and> match_ws_body cs \<noteq> None")
    case True
    with Cons.prems have "match_ws_body cs = Some (m, d)" by auto
    from Cons.IH [OF this] obtain ws where
      "cs = ws @ m @ desc_text d" "list_all white_space ws" "m \<noteq> []" by blast
    with True have "c # cs = (c # ws) @ m @ desc_text d \<and> list_all white_space (c # ws) \<and> m \<noteq> []"
      by simp
    then show ?thesis by blast
  next
    case False
    with Cons.prems have "match_body (c # cs) = Some (m, d)"
      by (cases "match_ws_body cs") (auto split: if_splits)
    from match_body_sound [OF this] have "c # cs = [] @ m @ desc_text d \<and> list_all white_space [] \<and> m \<noteq> []"
      by simp
    then show ?thesis by blast
  qed
qed

lemma match_literal_ci_sound:
  "match_literal_ci p s = Some r \<Longrightarrow>
     s = take (length p) s @ r \<and> length p \<le> length s \<and>
     toLowerCase (take (length p) s) = toLowerCase p"
proof (induction p s rule: match_literal_ci.induct)
  case (1 s)
  then show ?case by (simp add: toLowerCase_def)
next
  case (2 p ps)
  then show ?case by simp
next
  case (3 p ps c cs)
  then show ?case by (auto simp: toLowerCase_def split: if_splits)
qed

lemma match_literal_ci_complete:
  "toLowerCase t = toLowerCase p \<Longrightarrow> match_literal_ci p (t @ rest) = Some rest"
proof (induction p arbitrary: t)
  case Nil
  then show ?case by (simp add: toLowerCase_def)
next
  case (Cons a p)
  then obtain c cs where t: "t = c # cs" by (cases t) (auto simp: toLowerCase_def)
  with Cons.prems have "to_lower_char c = to_lower_char a" "toLowerCase cs = toLowerCase p"
    by (simp_all add: toLowerCase_def)
  with Cons.IH [of cs] t show ?case by simp
qed

lemma match_colon_sound:
  assumes "match_colon ty sc b r = Some m"
  shows "g_type m = ty \<and> g_scope m = sc \<and> g_bang m = b \<and> g_msg m \<noteq> [] \<and>
         (\<exists>ws. r = CHR '':'' # ws @ g_msg m @ desc_text (g_desc m) \<and> list_all white_space ws)"
proof -
  from assms obtain r1 where r: "r = CHR '':'' # r1"
    by (auto simp: match_colon_def split: list.splits if_splits)
  with assms obtain t d where md: "match_ws_body r1 = Some (t, d)"
    and m: "m = \<lparr>g_type = ty, g_scope = sc, g_bang = b, g_msg = t, g_desc = d\<rparr>"
    by (auto simp: match_colon_def)
  from match_ws_body_sound [OF md] r m show ?thesis by auto
qed

lemma match_bang_sound:
  assumes "match_bang ty sc r = Some m"
  shows "g_type m = ty \<and> g_scope m = sc \<and> (g_bang m = None \<or> g_bang m = Some ''!'') \<and>
         g_msg m \<noteq> [] \<and>
         (\<exists>ws. r = bang_text (g_bang m) @ CHR '':'' # ws @ g_msg m @ desc_text (g_desc m) \<and>
               list_all white_space ws)"
proof -
  from assms have
    "(\<exists>r1. r = CHR ''!'' # r1 \<and> match_colon ty sc (Some ''!'') r1 = Some m) \<or>
     match_colon ty sc None r = Some m"
    unfolding match_bang_def
    by (auto dest!: orelse_Some split: list.splits if_splits)
  then show ?thesis
  proof
    assume "\<exists>r1. r = CHR ''!'' # r1 \<and> match_colon ty sc (Some ''!'') r1 = Some m"
    then obtain r1 where r: "r = CHR ''!'' # r1"
      and c: "match_colon ty sc (Some ''!'') r1 = Some m" by blast
    from match_colon_sound [OF c] r show ?thesis by (auto simp: bang_text_def)
  next
    assume c: "match_colon ty sc None r = Some m"
    from match_colon_sound [OF c] show ?thesis by (auto simp: bang_text_def)
  qed
qed

lemma scope_group_sound:
  assumes "scope_group r = Some (s, r3)"
  shows "r = CHR ''('' # s @ CHR '')'' # r3 \<and> s \<noteq> []"
proof -
  let ?np = "\<lambda>c. c \<noteq> CHR '')''"
  from assms obtain r1 where r: "r = CHR ''('' # r1"
    by (cases r) (auto simp: scope_group_def split: if_splits)
  from assms r have s: "s = takeWhile ?np r1" and ne: "s \<noteq> []"
    by (auto simp: scope_group_def Let_def split: if_splits list.splits)
  from assms r obtain x where d: "dropWhile ?np r1 = x # r3"
    by (auto simp: scope_group_def Let_def split: if_splits list.splits)
  from d have "dropWhile ?np r1 \<noteq> []" by simp
  then have "\<not> ?np (hd (dropWhile ?np r1))" by (rule hd_dropWhile)
  with d have "x = CHR '')''" by simp
  with d s have "r1 = s @ CHR '')'' # r3"
    using takeWhile_dropWhile_id [of ?np r1] by simp
  with r ne show ?thesis by simp
qed

lemma match_scope_sound:
  assumes "match_scope ty r = Some m"
  shows "g_type m = ty \<and> (g_bang m = None \<or> g_bang m = Some ''!'') \<and> g_msg m \<noteq> [] \<and>
         (\<exists>ws. r = scope_text (g_scope m) @ bang_text (g_bang m) @ CHR '':'' # ws @
                      g_msg m @ desc_text (g_desc m) \<and> list_all white_space ws)"
proof -
  from orelse_Some [OF assms [unfolded match_scope_def]]
  consider s r3 where "scope_group r = Some (s, r3)" "match_bang ty (Some s) r3 = Some m"
    | "match_bang ty None r = Some m"
    by (auto split: option.splits)
  then show ?thesis
  proof cases
    case 1
    from match_bang_sound [OF 1(2)] obtain ws where
      g: "g_type m = ty" "g_scope m = Some s"
         "g_bang m = None \<or> g_bang m = Some ''!''" "g_msg m \<noteq> []"
      and r3: "r3 = bang_text (g_bang m) @ CHR '':'' # ws @ g_msg m @ desc_text (g_desc m)"
      and ws: "list_all white_space ws" by blast
    from scope_group_sound [OF 1(1)] r3 g(2)
    have "r = scope_text (g_scope m) @ bang_text (g_bang m) @ CHR '':'' # ws @
                      g_msg m @ desc_text (g_desc m)"
      by (simp add: scope_text_def)
    with g ws show ?thesis by blast
  next
    case 2
    from match_bang_sound [OF 2] show ?thesis by (auto simp: scope_text_def)
  qed
qed

lemma match_scope_type: "match_scope ty r = Some m \<Longrightarrow> g_type m = ty"
  by (drule match_scope_sound) simp

lemma toLowerCase_tokens: "tok \<in> set commit_tokens \<Longrightarrow> toLowerCase tok = tok"
  by (auto simp: commit_tokens_def toLowerCase_def to_lower_char_def)

lemma commit_tokens_prefix_free:
  "a \<in> set commit_tokens \<Longrightarrow> b \<in> set commit_tokens \<Longrightarrow> prefix a b \<Longrightarrow> a = b"
  by (auto simp: commit_tokens_def)

lemma conventional_regex_sound:
  assumes "conventional_regex msg = Some m"
  shows "toLowerCase (g_type m) \<in> set commit_tokens \<and>
         (g_bang m = None \<or> g_bang m = Some ''!'') \<and> g_msg m \<noteq> [] \<and>
         (\<exists>ws. msg = grammar_text m ws \<and> list_all white_space ws)"
proof -
  from first_success_Some [OF assms [unfolded conventional_regex_def]]
  obtain tok r where tok: "tok \<in> set commit_tokens"
    and lit: "match_literal_ci tok msg = Some r"
    and sc: "match_scope (take (length tok) msg) r = Some m"
    by (auto split: option.splits)
  from match_literal_ci_sound [OF lit] toLowerCase_tokens [OF tok]
  have msg: "msg = take (length tok) msg @ r"
    and low: "toLowerCase (take (length tok) msg) = tok" by simp_all
  from match_scope_sound [OF sc] obtain ws where
    g: "g_type m = take (length tok) msg" "g_bang m = None \<or> g_bang m = Some ''!''"
       "g_msg m \<noteq> []"
    and r: "r = scope_text (g_scope m) @ bang_text (g_bang m) @ CHR '':'' # ws @
                g_msg m @ desc_text (g_desc m)"
    and ws: "list_all white_space ws" by blast
  from msg r g(1) have "msg = grammar_text m ws"
    by (simp add: grammar_text_def)
  with g low tok ws show ?thesis by auto
qed

lemma conventional_regex_at_token:
  assumes tok: "toLowerCase t \<in> set commit_tokens"
  shows "conventional_regex (t @ rest) = match_scope t rest"
proof -
  let ?f = "\<lambda>tok. case match_literal_ci tok (t @ rest) of
                 Some r \<Rightarrow> match_scope (take (length tok) (t @ rest)) r
               | None \<Rightarrow> None"
  have other: "?f y = None" if y: "y \<in> set commit_tokens" "y \<noteq> toLowerCase t" for y
  proof (cases "match_literal_ci y (t @ rest)")
    case None
    then show ?thesis by simp
  next
    case (Some r)
    define s where "s = t @ rest"
    from Some have "match_literal_ci y s = Some r" by (simp add: s_def)
    from match_literal_ci_sound [OF this] toLowerCase_tokens [OF y(1)]
    have "take (length y) (toLowerCase s) = y"
      by (simp add: toLowerCase_take)
    then have "prefix y (toLowerCase s)"
      by (metis take_is_prefix)
    then have "prefix y (toLowerCase t @ toLowerCase rest)"
      by (simp add: s_def toLowerCase_append)
    moreover have "prefix (toLowerCase t) (toLowerCase t @ toLowerCase rest)" by simp
    ultimately have "prefix y (toLowerCase t) \<or> prefix (toLowerCase t) y"
      by (rule prefix_same_cases)
    with commit_tokens_prefix_free tok y have False by blast
    then show ?thesis ..
  qed
  have "toLowerCase t = toLowerCase (toLowerCase t)"
    using toLowerCase_tokens [OF tok] by simp
  then have "match_literal_ci (toLowerCase t) (t @ rest) = Some rest"
    by (rule match_literal_ci_complete)
  then have here: "?f (toLowerCase t) = match_scope t rest"
    by (simp add: length_toLowerCase)
  have "conventional_regex (t @ rest) = ?f (toLowerCase t)"
    unfolding conventional_regex_def
    by (rule first_success_only [OF tok]) (rule other)
  with here show ?thesis by simp
qed

lemma parse_on_match:
  "conventional_regex msg = Some m \<Longrightarrow>
     parseConventionalCommit msg =
       \<lparr>type = mapCommitType (g_type m), scope = g_scope m,
        breaking = (g_bang m \<noteq> None \<or> str_includes msg BREAKING_MARKER),
        message = trim (g_msg m), description = map_option trim (g_desc m)\<rparr>"
  by (simp add: parseConventionalCommit_def)

lemma mapCommitType_token:
  "tok \<in> set commit_tokens \<Longrightarrow> toLowerCase t = tok \<Longrightarrow> mapCommitType t = token_category tok"
  by (auto simp: commit_tokens_def mapCommitType_def typeMap_def token_category_def
      all_commit_types_def)

section \<open>The regular expression: which messages it matches\<close>

lemma match_body_complete:
  assumes "valid_title ttl"
  shows "match_body (ttl @ desc_text d) = Some (ttl, d)"
proof -
  let ?P = "\<lambda>c. \<not> line_terminator c"
  from assms have all: "\<forall>c\<in>set ttl. ?P c" and ne: "ttl \<noteq> []"
    by (simp_all add: valid_title_def list_all_iff)
  have stop: "desc_text d = [] \<or> \<not> ?P (hd (desc_text d))"
    by (cases d) (simp_all add: desc_text_def line_terminator_def NL_def)
  have t: "takeWhile ?P (ttl @ desc_text d) = ttl"
  proof (cases "desc_text d")
    case Nil
    with all show ?thesis by simp
  next
    case (Cons x xs)
    with stop have "\<not> ?P x" by simp
    with all Cons show ?thesis by (simp add: takeWhile_tail)
  qed
  have r: "dropWhile ?P (ttl @ desc_text d) = desc_text d"
  proof (cases "desc_text d")
    case Nil
    with all show ?thesis by simp
  next
    case (Cons x xs)
    with stop have "\<not> ?P x" by simp
    with all Cons show ?thesis by (simp add: dropWhile_append3)
  qed
  show ?thesis
    unfolding match_body_def Let_def t r using ne
    by (cases d) (simp_all add: desc_text_def)
qed

lemma orelse_not_None: "a \<noteq> None \<or> b \<noteq> None \<Longrightarrow> orelse a b \<noteq> None"
  by (cases a) auto

lemma match_ws_body_of_body:
  assumes "match_body r \<noteq> None"
  shows "match_ws_body r \<noteq> None"
proof (cases r)
  case Nil
  with assms show ?thesis by simp
next
  case (Cons c cs)
  show ?thesis
  proof (cases "white_space c")
    case True
    from assms Cons have "orelse (match_ws_body cs) (match_body (c # cs)) \<noteq> None"
      by (intro orelse_not_None) simp
    with True Cons show ?thesis by simp
  next
    case False
    with assms Cons show ?thesis by simp
  qed
qed

lemma match_ws_body_matches:
  assumes ws: "list_all white_space ws" and t: "valid_title ttl"
  shows "match_ws_body (ws @ ttl @ desc_text d) \<noteq> None"
  using ws
proof (induction ws)
  case Nil
  from match_body_complete [OF t, of d] show ?case
    by (simp add: match_ws_body_of_body)
next
  case (Cons c ws)
  then have "orelse (match_ws_body (ws @ ttl @ desc_text d))
      (match_body (c # ws @ ttl @ desc_text d)) \<noteq> None"
    by (intro orelse_not_None) simp
  with Cons.prems show ?case by simp
qed

lemma match_ws_body_exact:
  assumes ws: "list_all white_space ws" and t: "valid_title ttl"
    and h: "\<not> white_space (hd ttl)"
  shows "match_ws_body (ws @ ttl @ desc_text d) = Some (ttl, d)"
  using ws
proof (induction ws)
  case Nil
  from t obtain x xs where x: "ttl = x # xs" by (cases ttl) (auto simp: valid_title_def)
  with h match_body_complete [OF t, of d] show ?case by simp
next
  case (Cons c ws)
  then show ?case by simp
qed

lemma scope_group_complete:
  assumes "s \<noteq> []" "CHR '')'' \<notin> set s"
  shows "scope_group (CHR ''('' # s @ CHR '')'' # r) = Some (s, r)"
proof -
  let ?np = "\<lambda>c. c \<noteq> CHR '')''"
  from assms(2) have all: "\<forall>c\<in>set s. ?np c" by auto
  then have "takeWhile ?np (s @ CHR '')'' # r) = s" "dropWhile ?np (s @ CHR '')'' # r) = CHR '')'' # r"
    by (simp_all add: takeWhile_tail dropWhile_append3)
  with assms(1) show ?thesis by (simp add: scope_group_def)
qed

lemma match_bang_complete:
  assumes b: "valid_bang b" and w: "match_ws_body rest = Some (x, y)"
  shows "match_bang ty sc (bang_text b @ CHR '':'' # rest) =
           Some \<lparr>g_type = ty, g_scope = sc, g_bang = b, g_msg = x, g_desc = y\<rparr>"
  using b w by (auto simp: valid_bang_def match_bang_def match_colon_def bang_text_def)

lemma match_scope_complete:
  assumes sc: "valid_scope sc" and b: "valid_bang b" and w: "match_ws_body rest = Some (x, y)"
  shows "match_scope ty (scope_text sc @ bang_text b @ CHR '':'' # rest) =
           Some \<lparr>g_type = ty, g_scope = sc, g_bang = b, g_msg = x, g_desc = y\<rparr>"
proof (cases sc)
  case None
  have "scope_group (bang_text b @ CHR '':'' # rest) = None"
    using b by (auto simp: valid_bang_def bang_text_def scope_group_def)
  with None match_bang_complete [OF b w, of ty None] show ?thesis
    by (simp add: match_scope_def scope_text_def)
next
  case (Some s)
  with sc have "s \<noteq> []" "CHR '')'' \<notin> set s" by (simp_all add: valid_scope_def)
  from scope_group_complete [OF this, of "bang_text b @ CHR '':'' # rest"]
    match_bang_complete [OF b w, of ty "Some s"] Some
  show ?thesis by (simp add: match_scope_def scope_text_def)
qed

lemma conventional_regex_complete:
  assumes tok: "toLowerCase t \<in> set commit_tokens" and sc: "valid_scope sc"
    and b: "valid_bang b" and w: "match_ws_body rest = Some (x, y)"
  shows "conventional_regex (t @ scope_text sc @ bang_text b @ CHR '':'' # rest) =
           Some \<lparr>g_type = t, g_scope = sc, g_bang = b, g_msg = x, g_desc = y\<rparr>"
  using conventional_regex_at_token [OF tok, of "scope_text sc @ bang_text b @ CHR '':'' # rest"]
    match_scope_complete [OF sc b w, of t]
  by simp


section \<open>The parser\<close>

text \<open>
  Claim C4. Every message of the shape \<open><token>[(<scope>)][!]: <title>\<close>, optionally
  followed by a blank line and a body, with any casing of one of the eight tokens, is
  matched by the structured grammar, with the token as written, the scope and the
  breaking indicator as its groups, and its parsed category is the fixed mapping of the
  lower-cased token: \<open>feat\<close> gives \<open>feature\<close>, \<open>chore\<close> gives \<open>other\<close>, any other token the
  category of its own name, whatever words the title holds. When the title starts with a
  character that is not white space, the whole parsed record is the one the parts give.
  Conversely, whenever the grammar matches, the message starts with the token as written,
  the lower-cased token is one of the eight, and the category is its mapping; so a
  message that starts with any casing \<open>t\<close> of a token and matches gets the category of
  the lower-cased \<open>t\<close>.
\<close>

theorem structured_category:
  "(toLowerCase t \<in> set commit_tokens \<and> valid_scope sc \<and> valid_bang b \<and>
    list_all white_space ws \<and> valid_title ttl \<longrightarrow>
      (\<exists>x y. conventional_regex (t @ scope_text sc @ bang_text b @ CHR '':'' # ws @ ttl @ desc_text d) =
          Some \<lparr>g_type = t, g_scope = sc, g_bang = b, g_msg = x, g_desc = y\<rparr>) \<and>
      type (parseConventionalCommit
              (t @ scope_text sc @ bang_text b @ CHR '':'' # ws @ ttl @ desc_text d)) =
        token_category (toLowerCase t) \<and>
      (\<not> white_space (hd ttl) \<longrightarrow>
         parseConventionalCommit
           (t @ scope_text sc @ bang_text b @ CHR '':'' # ws @ ttl @ desc_text d) =
         \<lparr>type = token_category (toLowerCase t), scope = sc,
          breaking = (b \<noteq> None \<or>
            str_includes (t @ scope_text sc @ bang_text b @ CHR '':'' # ws @ ttl @ desc_text d)
              BREAKING_MARKER),
          message = trim ttl, description = map_option trim d\<rparr>)) \<and>
   (conventional_regex msg = Some m \<longrightarrow>
      prefix (g_type m) msg \<and> toLowerCase (g_type m) \<in> set commit_tokens \<and>
      type (parseConventionalCommit msg) = token_category (toLowerCase (g_type m))) \<and>
   (toLowerCase t \<in> set commit_tokens \<and> conventional_regex (t @ rest) \<noteq> None \<longrightarrow>
      type (parseConventionalCommit (t @ rest)) = token_category (toLowerCase t))"
proof (intro conjI impI)
  let ?msg = "t @ scope_text sc @ bang_text b @ CHR '':'' # ws @ ttl @ desc_text d"
  assume a: "toLowerCase t \<in> set commit_tokens \<and> valid_scope sc \<and> valid_bang b \<and>
    list_all white_space ws \<and> valid_title ttl"
  then have tok: "toLowerCase t \<in> set commit_tokens" and sc: "valid_scope sc"
    and b: "valid_bang b" and ws: "list_all white_space ws" and t: "valid_title ttl"
    by simp_all
  from match_ws_body_matches [OF ws t, of d] obtain x y where
    w: "match_ws_body (ws @ ttl @ desc_text d) = Some (x, y)" by auto
  from conventional_regex_complete [OF tok sc b w]
  have m: "conventional_regex ?msg = Some \<lparr>g_type = t, g_scope = sc, g_bang = b, g_msg = x, g_desc = y\<rparr>" .
  then show "\<exists>x y. conventional_regex ?msg =
          Some \<lparr>g_type = t, g_scope = sc, g_bang = b, g_msg = x, g_desc = y\<rparr>" by blast
  from parse_on_match [OF m] mapCommitType_token [OF tok refl]
  show "type (parseConventionalCommit ?msg) = token_category (toLowerCase t)" by simp
  assume h: "\<not> white_space (hd ttl)"
  from conventional_regex_complete [OF tok sc b match_ws_body_exact [OF ws t h, of d]]
  have "conventional_regex ?msg =
      Some \<lparr>g_type = t, g_scope = sc, g_bang = b, g_msg = ttl, g_desc = d\<rparr>" .
  from parse_on_match [OF this] mapCommitType_token [OF tok refl]
  show "parseConventionalCommit ?msg =
         \<lparr>type = token_category (toLowerCase t), scope = sc,
          breaking = (b \<noteq> None \<or> str_includes ?msg BREAKING_MARKER),
          message = trim ttl, description = map_option trim d\<rparr>" by simp
next
  assume m: "conventional_regex msg = Some m"
  from conventional_regex_sound [OF m] obtain ws where
    tok: "toLowerCase (g_type m) \<in> set commit_tokens" and msg: "msg = grammar_text m ws"
    by blast
  from msg show "prefix (g_type m) msg" by (simp add: grammar_text_def)
  from tok show "toLowerCase (g_type m) \<in> set commit_tokens" .
  from mapCommitType_token [OF tok refl] parse_on_match [OF m]
  show "type (parseConventionalCommit msg) = token_category (toLowerCase (g_type m))" by simp
next
  assume a: "toLowerCase t \<in> set commit_tokens \<and> conventional_regex (t @ rest) \<noteq> None"
  then obtain m where m: "conventional_regex (t @ rest) = Some m" by auto
  with a conventional_regex_at_token [of t rest] have "match_scope t rest = Some m" by simp
  then have "g_type m = t" by (rule match_scope_type)
  with a mapCommitType_token [OF _ refl, of t] parse_on_match [OF m]
  show "type (parseConventionalCommit (t @ rest)) = token_category (toLowerCase t)" by simp
qed

theorem structured_category_witness:
  "parseConventionalCommit ''FeAt(api)!: fix the bug in docs'' =
     \<lparr>type = Feature, scope = Some ''api'', breaking = True,
      message = ''fix the bug in docs'', description = None\<rparr> \<and>
   parseConventionalCommit (''CHORE: fix tests'' @ [NL, NL] @ '' see the build '') =
     \<lparr>type = Other, scope = None, breaking = False,
      message = ''fix tests'', description = Some ''see the build''\<rparr> \<and>
   type (parseConventionalCommit ''docs:   feat flag'') = Docs"
proof -
  have tok: "toLowerCase ''FeAt'' \<in> set commit_tokens" "toLowerCase ''CHORE'' \<in> set commit_tokens"
    "toLowerCase ''docs'' \<in> set commit_tokens"
    by code_simp+
  have cat: "token_category (toLowerCase ''FeAt'') = Feature"
    "token_category (toLowerCase ''CHORE'') = Other" "token_category (toLowerCase ''docs'') = Docs"
    by code_simp+
  have v: "valid_scope (Some ''api'')" "valid_scope None" "valid_bang (Some ''!'')" "valid_bang None"
    "list_all white_space '' ''" "list_all white_space ''   ''"
    "valid_title ''fix the bug in docs''" "valid_title ''fix tests''" "valid_title ''feat flag''"
    "\<not> white_space (hd ''fix the bug in docs'')" "\<not> white_space (hd ''fix tests'')"
    by code_simp+
  have inc: "\<not> str_includes ''FeAt(api)!: fix the bug in docs'' BREAKING_MARKER"
    "\<not> str_includes (''CHORE: fix tests'' @ [NL, NL] @ '' see the build '') BREAKING_MARKER"
    by code_simp+
  have tr: "trim ''fix the bug in docs'' = ''fix the bug in docs''" "trim ''fix tests'' = ''fix tests''"
    "trim '' see the build '' = ''see the build''"
    by code_simp+
  from structured_category [of "''FeAt''" "Some ''api''" "Some ''!''" "'' ''"
      "''fix the bug in docs''" None] tok cat v inc tr
  have a: "parseConventionalCommit ''FeAt(api)!: fix the bug in docs'' =
     \<lparr>type = Feature, scope = Some ''api'', breaking = True,
      message = ''fix the bug in docs'', description = None\<rparr>"
    by (simp add: scope_text_def bang_text_def desc_text_def)
  from structured_category [of "''CHORE''" None None "'' ''" "''fix tests''"
      "Some '' see the build ''"] tok cat v inc tr
  have b: "parseConventionalCommit (''CHORE: fix tests'' @ [NL, NL] @ '' see the build '') =
     \<lparr>type = Other, scope = None, breaking = False,
      message = ''fix tests'', description = Some ''see the build''\<rparr>"
    by (simp add: scope_text_def bang_text_def desc_text_def)
  from structured_category [of "''docs''" None None "''   ''" "''feat flag''" None] tok cat v
  have c: "type (parseConventionalCommit ''docs:   feat flag'') = Docs"
    by (simp add: scope_text_def bang_text_def desc_text_def)
  from a b c show ?thesis by simp
qed

lemma parse_no_match:
  "conventional_regex msg = None \<Longrightarrow>
     parseConventionalCommit msg =
       \<lparr>type = inferType msg, scope = None,
        breaking = str_includes msg BREAKING_MARKER,
        message = trim (hd (split_lines msg)),
        description =
          (if trim (join_lines (tl (split_lines msg))) = [] then None
           else Some (trim (join_lines (tl (split_lines msg)))))\<rparr>"
  by (simp add: parseConventionalCommit_def Let_def)

lemma bang_iff_prefix:
  assumes m: "conventional_regex msg = Some m"
  shows "g_bang m \<noteq> None \<longleftrightarrow> prefix (g_type m @ scope_text (g_scope m) @ ''!:'') msg"
proof -
  from conventional_regex_sound [OF m] obtain ws where
    b: "g_bang m = None \<or> g_bang m = Some ''!''" and msg: "msg = grammar_text m ws"
    by blast
  from b show ?thesis
  proof
    assume "g_bang m = None"
    with msg show ?thesis by (simp add: grammar_text_def bang_text_def)
  next
    assume "g_bang m = Some ''!''"
    with msg show ?thesis by (simp add: grammar_text_def bang_text_def)
  qed
qed

text \<open>
  Claim C3. A message that contains the literal text \<open>BREAKING CHANGE:\<close> is parsed with
  the breaking flag set, whether the structured grammar matched or not. On a structured
  match the flag is set exactly when a \<open>!\<close> stands right before the colon that ends the
  prefix (after the token and the optional scope) or the message contains that marker;
  without a match it is set exactly when the message contains the marker.
\<close>

theorem breaking_flag:
  "(msg = p @ ''BREAKING CHANGE:'' @ q \<longrightarrow> breaking (parseConventionalCommit msg)) \<and>
   (conventional_regex msg = Some m \<longrightarrow>
      (breaking (parseConventionalCommit msg) \<longleftrightarrow>
         prefix (g_type m @ scope_text (g_scope m) @ ''!:'') msg \<or>
         (\<exists>p q. msg = p @ ''BREAKING CHANGE:'' @ q))) \<and>
   (conventional_regex msg = None \<longrightarrow>
      (breaking (parseConventionalCommit msg) \<longleftrightarrow> (\<exists>p q. msg = p @ ''BREAKING CHANGE:'' @ q)))"
proof (intro conjI impI)
  assume msg: "msg = p @ ''BREAKING CHANGE:'' @ q"
  then have inc: "str_includes msg BREAKING_MARKER"
    unfolding str_includes_iff BREAKING_MARKER_def by blast
  show "breaking (parseConventionalCommit msg)"
  proof (cases "conventional_regex msg")
    case None
    from parse_no_match [OF None] inc show ?thesis by simp
  next
    case (Some m')
    from parse_on_match [OF Some] inc show ?thesis by simp
  qed
next
  assume m: "conventional_regex msg = Some m"
  from parse_on_match [OF m] bang_iff_prefix [OF m]
  show "breaking (parseConventionalCommit msg) \<longleftrightarrow>
         prefix (g_type m @ scope_text (g_scope m) @ ''!:'') msg \<or>
         (\<exists>p q. msg = p @ ''BREAKING CHANGE:'' @ q)"
    by (simp add: str_includes_iff BREAKING_MARKER_def)
next
  assume n: "conventional_regex msg = None"
  from parse_no_match [OF n]
  show "breaking (parseConventionalCommit msg) \<longleftrightarrow> (\<exists>p q. msg = p @ ''BREAKING CHANGE:'' @ q)"
    by (simp add: str_includes_iff BREAKING_MARKER_def)
qed

theorem breaking_flag_witness:
  "breaking (parseConventionalCommit ''update BREAKING CHANGE: api'') \<and>
   breaking (parseConventionalCommit ''fix(core)!: drop v1'') \<and>
   \<not> breaking (parseConventionalCommit ''fix(a!b): keep v1'') \<and>
   \<not> breaking (parseConventionalCommit ''wip!: x'')"
proof -
  have 1: "''update BREAKING CHANGE: api'' = ''update '' @ ''BREAKING CHANGE:'' @ '' api''"
    by simp
  have 2: "conventional_regex ''fix(core)!: drop v1'' =
      Some \<lparr>g_type = ''fix'', g_scope = Some ''core'', g_bang = Some ''!'',
            g_msg = ''drop v1'', g_desc = None\<rparr>"
    by code_simp
  have 3: "conventional_regex ''fix(a!b): keep v1'' =
      Some \<lparr>g_type = ''fix'', g_scope = Some ''a!b'', g_bang = None,
            g_msg = ''keep v1'', g_desc = None\<rparr>"
    by code_simp
  have 4: "conventional_regex ''wip!: x'' = None"
    by code_simp
  have n3: "\<not> str_includes ''fix(a!b): keep v1'' ''BREAKING CHANGE:''"
    and n4: "\<not> str_includes ''wip!: x'' ''BREAKING CHANGE:''"
    by code_simp+
  from breaking_flag [of "''update BREAKING CHANGE: api''" "''update ''" "'' api''"] 1
  have a: "breaking (parseConventionalCommit ''update BREAKING CHANGE: api'')" by blast
  from breaking_flag [of "''fix(core)!: drop v1''" _ _
      "\<lparr>g_type = ''fix'', g_scope = Some ''core'', g_bang = Some ''!'',
            g_msg = ''drop v1'', g_desc = None\<rparr>"] 2
  have b: "breaking (parseConventionalCommit ''fix(core)!: drop v1'')"
    by (simp add: scope_text_def)
  from breaking_flag [of "''fix(a!b): keep v1''" _ _
      "\<lparr>g_type = ''fix'', g_scope = Some ''a!b'', g_bang = None,
            g_msg = ''keep v1'', g_desc = None\<rparr>"] 3 n3
  have c: "\<not> breaking (parseConventionalCommit ''fix(a!b): keep v1'')"
    by (simp add: scope_text_def str_includes_iff)
  from breaking_flag [of "''wip!: x''"] 4 n4
  have d: "\<not> breaking (parseConventionalCommit ''wip!: x'')"
    by (simp add: str_includes_iff)
  from a b c d show ?thesis by simp
qed

lemma match_literal_ci_prefix:
  "match_literal_ci n s \<noteq> None \<longleftrightarrow> prefix (toLowerCase n) (toLowerCase s)"
  by (induction n s rule: match_literal_ci.induct) (auto simp: toLowerCase_def)

lemma ci_occurs_includes:
  "ci_occurs n s \<longleftrightarrow> str_includes (toLowerCase s) (toLowerCase n)"
proof (induction s)
  case Nil
  then show ?case by (simp add: toLowerCase_def)
next
  case (Cons c cs)
  have "str_includes (toLowerCase (c # cs)) (toLowerCase n) \<longleftrightarrow>
        prefix (toLowerCase n) (toLowerCase (c # cs)) \<or> str_includes (toLowerCase cs) (toLowerCase n)"
    by (simp add: toLowerCase_def)
  with Cons match_literal_ci_prefix [of n "c # cs"] show ?case by auto
qed

lemma lower_includes:
  "toLowerCase n = n \<Longrightarrow> str_includes (toLowerCase s) n \<longleftrightarrow> ci_occurs n s"
  by (simp add: ci_occurs_includes)

lemma needles_lower:
  "toLowerCase ''fix'' = ''fix''" "toLowerCase ''bug'' = ''bug''" "toLowerCase ''feat'' = ''feat''"
  "toLowerCase ''doc'' = ''doc''" "toLowerCase ''perf'' = ''perf''" "toLowerCase ''test'' = ''test''"
  "toLowerCase ''build'' = ''build''" "toLowerCase ''deps'' = ''deps''"
  "toLowerCase ''refactor'' = ''refactor''"
  by (simp_all add: toLowerCase_def to_lower_char_def)

lemma inferType_priority: "inferType msg = priority_category msg"
  by (simp add: inferType_def priority_category_def Let_def inference_priority_def hits_def
      str_includes_sublist [symmetric] lower_includes needles_lower)

text \<open>
  Claim C5. When the structured grammar does not match, the category is the one the
  priority order gives: \<open>breaking\<close> when the message contains the breaking marker,
  else the category of the first entry of the order \<open>fix|bug\<close>, \<open>feat\<close>, \<open>doc\<close>, \<open>perf\<close>,
  \<open>test\<close>, \<open>build|deps\<close>, \<open>refactor\<close> one of whose needles occurs somewhere in the message
  without regard to case, else \<open>other\<close>. In particular the entry that decides is the
  earliest entry with a hit, wherever the needles stand in the message.
\<close>

theorem fallback_priority:
  "(conventional_regex msg = None \<longrightarrow>
      type (parseConventionalCommit msg) = priority_category msg) \<and>
   (conventional_regex msg = None \<and> \<not> sublist BREAKING_MARKER msg \<and>
    i < length inference_priority \<and> hits msg (inference_priority ! i) \<and>
    (\<forall>j<i. \<not> hits msg (inference_priority ! j)) \<longrightarrow>
      type (parseConventionalCommit msg) = snd (inference_priority ! i))"
proof (intro conjI impI)
  assume n: "conventional_regex msg = None"
  from parse_no_match [OF n] show "type (parseConventionalCommit msg) = priority_category msg"
    by (simp add: inferType_priority)
next
  assume a: "conventional_regex msg = None \<and> \<not> sublist BREAKING_MARKER msg \<and>
    i < length inference_priority \<and> hits msg (inference_priority ! i) \<and>
    (\<forall>j<i. \<not> hits msg (inference_priority ! j))"
  then have "find (hits msg) inference_priority = Some (inference_priority ! i)"
    unfolding find_Some_iff by blast
  with a have "priority_category msg = snd (inference_priority ! i)"
    by (simp add: priority_category_def)
  with a parse_no_match [of msg] show "type (parseConventionalCommit msg) = snd (inference_priority ! i)"
    by (simp add: inferType_priority)
qed

theorem fallback_priority_witness:
  "type (parseConventionalCommit ''new feature to fix login'') = Fix \<and>
   type (parseConventionalCommit ''Updated the DOCS for clarity'') = Docs"
proof -
  have n1: "conventional_regex ''new feature to fix login'' = None"
    and n2: "conventional_regex ''Updated the DOCS for clarity'' = None"
    by code_simp+
  have p1: "priority_category ''new feature to fix login'' = Fix"
    by code_simp
  have b2: "\<not> sublist BREAKING_MARKER ''Updated the DOCS for clarity''"
    by code_simp
  have h2: "hits ''Updated the DOCS for clarity'' (inference_priority ! 2)"
    by code_simp
  have nh: "\<forall>j<2. \<not> hits ''Updated the DOCS for clarity'' (inference_priority ! j)"
  proof (intro allI impI)
    fix j :: nat
    assume "j < 2"
    then have "j = 0 \<or> j = 1" by arith
    moreover have "\<not> hits ''Updated the DOCS for clarity'' (inference_priority ! 0)"
      "\<not> hits ''Updated the DOCS for clarity'' (inference_priority ! 1)"
      by code_simp+
    ultimately show "\<not> hits ''Updated the DOCS for clarity'' (inference_priority ! j)" by auto
  qed
  have s2: "snd (inference_priority ! 2) = Docs" "2 < length inference_priority"
    by (simp_all add: inference_priority_def)
  from fallback_priority [of "''new feature to fix login''" 0] n1 p1
  have a: "type (parseConventionalCommit ''new feature to fix login'') = Fix" by simp
  from n2 b2 h2 nh s2(2)
  have "conventional_regex ''Updated the DOCS for clarity'' = None \<and>
    \<not> sublist BREAKING_MARKER ''Updated the DOCS for clarity'' \<and>
    2 < length inference_priority \<and>
    hits ''Updated the DOCS for clarity'' (inference_priority ! 2) \<and>
    (\<forall>j<2. \<not> hits ''Updated the DOCS for clarity'' (inference_priority ! j))"
    by blast
  with fallback_priority [of "''Updated the DOCS for clarity''" 2]
  have "type (parseConventionalCommit ''Updated the DOCS for clarity'') =
      snd (inference_priority ! 2)"
    by blast
  with s2(1) have b: "type (parseConventionalCommit ''Updated the DOCS for clarity'') = Docs"
    by simp
  from a b show ?thesis by simp
qed


lemma rev_dropWhile_split: "xs = rev (dropWhile P (rev xs)) @ rev (takeWhile P (rev xs))"
  by (metis rev_append rev_rev_ident takeWhile_dropWhile_id)

lemma trim_split:
  "dropWhile white_space s =
     trim s @ rev (takeWhile white_space (rev (dropWhile white_space s)))"
  unfolding trim_def by (rule rev_dropWhile_split)

lemma trim_sublist: "\<exists>a b. s = a @ trim s @ b"
proof -
  have "s = takeWhile white_space s @ dropWhile white_space s" by simp
  with trim_split [of s]
  have "s = takeWhile white_space s @ trim s @
      rev (takeWhile white_space (rev (dropWhile white_space s)))"
    by simp
  then show ?thesis by blast
qed

lemma trim_edges:
  assumes "trim s \<noteq> []"
  shows "\<not> white_space (hd (trim s)) \<and> \<not> white_space (last (trim s))"
proof -
  let ?d = "dropWhile white_space s"
  let ?e = "dropWhile white_space (rev ?d)"
  from assms have e: "?e \<noteq> []" by (simp add: trim_def)
  then have "\<not> white_space (hd ?e)" by (rule hd_dropWhile)
  with e have last: "\<not> white_space (last (trim s))"
    by (simp add: trim_def last_rev)
  from assms have "trim s @ rev (takeWhile white_space (rev ?d)) \<noteq> []" by simp
  with trim_split [of s] have "?d \<noteq> []" by metis
  then have "\<not> white_space (hd ?d)" by (rule hd_dropWhile)
  moreover from trim_split [of s] assms have "hd ?d = hd (trim s)"
    by (metis hd_append2)
  ultimately show ?thesis using last by simp
qed

lemma mapCommitType_run_token:
  "toLowerCase t \<in> set commit_tokens \<Longrightarrow> mapCommitType_run t = Category (mapCommitType t)"
  by (auto simp: commit_tokens_def mapCommitType_run_def mapCommitType_def get_property_def
      typeMap_def)

lemma parse_run:
  "parseConventionalCommit_run msg =
     Inr \<lparr>r_type = Category (type (parseConventionalCommit msg)),
          r_scope = scope (parseConventionalCommit msg),
          r_breaking = breaking (parseConventionalCommit msg),
          r_message = message (parseConventionalCommit msg),
          r_description = description (parseConventionalCommit msg)\<rparr>"
proof (cases "conventional_regex msg")
  case None
  obtain l ls where sp: "split_lines msg = l # ls"
    using split_lines_nonempty [of msg] by (cases "split_lines msg") auto
  with None parse_no_match [OF None] show ?thesis
    by (simp add: parseConventionalCommit_run_def Let_def)
next
  case (Some m)
  from conventional_regex_sound [OF Some] have "toLowerCase (g_type m) \<in> set commit_tokens"
    by blast
  from mapCommitType_run_token [OF this] Some parse_on_match [OF Some] show ?thesis
    by (simp add: parseConventionalCommit_run_def)
qed

lemma parse_message:
  "message (parseConventionalCommit msg) =
     (case conventional_regex msg of
        Some m \<Rightarrow> trim (g_msg m)
      | None \<Rightarrow> trim (takeWhile (\<lambda>c. c \<noteq> NL) msg))"
proof (cases "conventional_regex msg")
  case None
  from parse_no_match [OF None] None show ?thesis by (simp add: hd_split_lines)
next
  case (Some m)
  from parse_on_match [OF Some] Some show ?thesis by simp
qed

lemma title_in_message: "\<exists>p q. msg = p @ message (parseConventionalCommit msg) @ q"
proof (cases "conventional_regex msg")
  case None
  let ?l = "takeWhile (\<lambda>c. c \<noteq> NL) msg"
  from trim_sublist [of ?l] obtain a b where l: "?l = a @ trim ?l @ b" by blast
  have "msg = ?l @ dropWhile (\<lambda>c. c \<noteq> NL) msg" by simp
  with l have "msg = a @ trim ?l @ (b @ dropWhile (\<lambda>c. c \<noteq> NL) msg)"
    by (metis append.assoc)
  then have "\<exists>p q. msg = p @ trim ?l @ q" by blast
  with None show ?thesis by (simp only: parse_message option.case)
next
  case (Some m)
  from conventional_regex_sound [OF Some] obtain ws where msg: "msg = grammar_text m ws" by blast
  from trim_sublist [of "g_msg m"] obtain a b where g: "g_msg m = a @ trim (g_msg m) @ b" by blast
  define p where "p = (g_type m @ scope_text (g_scope m) @ bang_text (g_bang m) @ CHR '':'' # ws) @ a"
  define q where "q = b @ desc_text (g_desc m)"
  have "msg = (g_type m @ scope_text (g_scope m) @ bang_text (g_bang m) @ CHR '':'' # ws) @
      g_msg m @ desc_text (g_desc m)"
    using msg by (simp add: grammar_text_def)
  also have "\<dots> = p @ trim (g_msg m) @ q"
    unfolding p_def q_def using g by (metis append.assoc)
  finally have "\<exists>p q. msg = p @ trim (g_msg m) @ q" by blast
  with Some show ?thesis by (simp only: parse_message option.case)
qed

text \<open>
  Claim C8, as amended. Read at run time, the parser returns a record for every message
  and never raises; the category of the record is one of the nine (never an inherited
  property of the lookup table), and the record is the one the typed reading computes.
  The title is a piece of the message, trimmed: it neither starts nor ends with white
  space. It can be empty: without a structured match it is empty exactly when the first
  line is all white space, with a match exactly when the fourth group is. For a message
  of the structured shape whose title text starts with a character that is not white
  space, the title is that text trimmed, and not empty.
\<close>

theorem parser_total:
  "parseConventionalCommit_run msg =
     Inr \<lparr>r_type = Category (type (parseConventionalCommit msg)),
          r_scope = scope (parseConventionalCommit msg),
          r_breaking = breaking (parseConventionalCommit msg),
          r_message = message (parseConventionalCommit msg),
          r_description = description (parseConventionalCommit msg)\<rparr> \<and>
   (\<exists>p q. msg = p @ message (parseConventionalCommit msg) @ q) \<and>
   (message (parseConventionalCommit msg) \<noteq> [] \<longrightarrow>
      \<not> white_space (hd (message (parseConventionalCommit msg))) \<and>
      \<not> white_space (last (message (parseConventionalCommit msg)))) \<and>
   (conventional_regex msg = None \<longrightarrow>
      (message (parseConventionalCommit msg) = [] \<longleftrightarrow>
         list_all white_space (takeWhile (\<lambda>c. c \<noteq> NL) msg))) \<and>
   (conventional_regex msg = Some m \<longrightarrow>
      (message (parseConventionalCommit msg) = [] \<longleftrightarrow> list_all white_space (g_msg m))) \<and>
   (toLowerCase t \<in> set commit_tokens \<and> valid_scope sc \<and> valid_bang b \<and>
    list_all white_space ws \<and> valid_title ttl \<and> \<not> white_space (hd ttl) \<longrightarrow>
      message (parseConventionalCommit
                 (t @ scope_text sc @ bang_text b @ CHR '':'' # ws @ ttl @ desc_text d)) = trim ttl \<and>
      trim ttl \<noteq> [])"
proof (intro conjI impI)
  show "parseConventionalCommit_run msg =
     Inr \<lparr>r_type = Category (type (parseConventionalCommit msg)),
          r_scope = scope (parseConventionalCommit msg),
          r_breaking = breaking (parseConventionalCommit msg),
          r_message = message (parseConventionalCommit msg),
          r_description = description (parseConventionalCommit msg)\<rparr>"
    by (rule parse_run)
  show "\<exists>p q. msg = p @ message (parseConventionalCommit msg) @ q"
    by (rule title_in_message)
  {
    assume ne: "message (parseConventionalCommit msg) \<noteq> []"
    obtain s where s: "message (parseConventionalCommit msg) = trim s"
      by (cases "conventional_regex msg") (simp_all add: parse_message)
    with ne trim_edges [of s]
    show "\<not> white_space (hd (message (parseConventionalCommit msg)))"
      and "\<not> white_space (last (message (parseConventionalCommit msg)))"
      by simp_all
  }
  {
    assume "conventional_regex msg = None"
    then show "message (parseConventionalCommit msg) = [] \<longleftrightarrow>
         list_all white_space (takeWhile (\<lambda>c. c \<noteq> NL) msg)"
      by (simp add: parse_message trim_empty_iff)
  }
  {
    assume "conventional_regex msg = Some m"
    then show "message (parseConventionalCommit msg) = [] \<longleftrightarrow> list_all white_space (g_msg m)"
      by (simp add: parse_message trim_empty_iff)
  }
  {
    assume a: "toLowerCase t \<in> set commit_tokens \<and> valid_scope sc \<and> valid_bang b \<and>
      list_all white_space ws \<and> valid_title ttl \<and> \<not> white_space (hd ttl)"
    then have w: "match_ws_body (ws @ ttl @ desc_text d) = Some (ttl, d)"
      by (intro match_ws_body_exact) simp_all
    from a conventional_regex_complete [OF _ _ _ w, of t sc b]
    show "message (parseConventionalCommit
                 (t @ scope_text sc @ bang_text b @ CHR '':'' # ws @ ttl @ desc_text d)) = trim ttl"
      by (simp add: parse_message)
    from a have "ttl \<noteq> []" by (simp add: valid_title_def)
    with a have "\<not> list_all white_space ttl" by (cases ttl) simp_all
    then show "trim ttl \<noteq> []" by (simp add: trim_empty_iff)
  }
qed

theorem parser_total_witness:
  "parseConventionalCommit_run ''fix(constructor): toString of null'' =
     Inr \<lparr>r_type = Category Fix, r_scope = Some ''constructor'', r_breaking = False,
          r_message = ''toString of null'', r_description = None\<rparr> \<and>
   message (parseConventionalCommit ''feat(api): add search endpoint'') = ''add search endpoint'' \<and>
   message (parseConventionalCommit (''   '' @ [NL] @ ''body'')) = [] \<and>
   message (parseConventionalCommit (''  wip docs  '' @ [NL] @ ''body'')) \<noteq> []"
proof -
  have p: "parseConventionalCommit ''fix(constructor): toString of null'' =
      \<lparr>type = Fix, scope = Some ''constructor'', breaking = False,
       message = ''toString of null'', description = None\<rparr>"
    by code_simp
  from parser_total [of "''fix(constructor): toString of null''"] p
  have a: "parseConventionalCommit_run ''fix(constructor): toString of null'' =
     Inr \<lparr>r_type = Category Fix, r_scope = Some ''constructor'', r_breaking = False,
          r_message = ''toString of null'', r_description = None\<rparr>"
    by simp
  have v: "toLowerCase ''feat'' \<in> set commit_tokens \<and> valid_scope (Some ''api'') \<and>
      valid_bang None \<and> list_all white_space '' '' \<and> valid_title ''add search endpoint'' \<and>
      \<not> white_space (hd ''add search endpoint'')"
    by code_simp
  have tr: "trim ''add search endpoint'' = ''add search endpoint''" by code_simp
  from parser_total [of _ _ "''feat''" "Some ''api''" None "'' ''" "''add search endpoint''" None] v tr
  have b: "message (parseConventionalCommit ''feat(api): add search endpoint'') =
      ''add search endpoint''"
    by (simp add: scope_text_def bang_text_def desc_text_def)
  have n: "conventional_regex (''   '' @ [NL] @ ''body'') = None"
    "conventional_regex (''  wip docs  '' @ [NL] @ ''body'') = None"
    by code_simp+
  have l: "list_all white_space (takeWhile (\<lambda>c. c \<noteq> NL) (''   '' @ [NL] @ ''body''))"
    "\<not> list_all white_space (takeWhile (\<lambda>c. c \<noteq> NL) (''  wip docs  '' @ [NL] @ ''body''))"
    by code_simp+
  from parser_total [of "''   '' @ [NL] @ ''body''"] n(1) l(1)
  have c: "message (parseConventionalCommit (''   '' @ [NL] @ ''body'')) = []" by blast
  from parser_total [of "''  wip docs  '' @ [NL] @ ''body''"] n(2) l(2)
  have d: "message (parseConventionalCommit (''  wip docs  '' @ [NL] @ ''body'')) \<noteq> []" by blast
  from a b c d show ?thesis by blast
qed

text \<open>
  Claim C8 as stated fails: the empty message, and the message \<open>feat: \<close>, are parsed
  with an empty title.
\<close>

theorem empty_title_counterexample:
  "message (parseConventionalCommit []) = [] \<and> message (parseConventionalCommit ''feat: '') = []"
  by code_simp

section \<open>The merger\<close>

lemma apply_labels_frame:
  "scope (apply_labels pr c) = scope c" "message (apply_labels pr c) = message c"
  "description (apply_labels pr c) = description c" "sha (apply_labels pr c) = sha c"
  "author (apply_labels pr c) = author c" "date (apply_labels pr c) = date c"
  "prNumber (apply_labels pr c) = prNumber c" "commitUrl (apply_labels pr c) = commitUrl c"
  by (simp_all add: apply_labels_def Let_def)

lemma apply_labels_not_other: "type c \<noteq> Other \<Longrightarrow> apply_labels pr c = c"
  by (simp add: apply_labels_def)

lemma apply_labels_idem: "apply_labels pr (apply_labels pr c) = apply_labels pr c"
  by (simp add: apply_labels_def Let_def)

lemma apply_title_idem: "apply_title pr (apply_title pr c) = apply_title pr c"
  by (simp add: apply_title_def)

lemma apply_body_idem: "apply_body pr (apply_body pr c) = apply_body pr c"
  by (simp add: apply_body_def)

lemma apply_labels_title: "apply_labels pr (apply_title pr c) = apply_title pr (apply_labels pr c)"
  by (simp add: apply_labels_def apply_title_def Let_def)

lemma apply_labels_body: "apply_labels pr (apply_body pr c) = apply_body pr (apply_labels pr c)"
  by (simp add: apply_labels_def apply_body_def Let_def)

lemma apply_title_body: "apply_title pr (apply_body pr c) = apply_body pr (apply_title pr c)"
  by (simp add: apply_title_def apply_body_def)

lemma mergePR_idem: "mergePR pr (mergePR pr c) = mergePR pr c"
  by (simp add: mergePR_def apply_labels_body apply_labels_title apply_title_body
      apply_labels_idem apply_title_idem apply_body_idem)

lemma mergePR_prNumber: "prNumber (mergePR pr c) = prNumber c"
  by (simp add: mergePR_def apply_body_def apply_title_def apply_labels_frame)

lemma enrich_commit_idem:
  assumes e: "enrich_commit fetchPullRequest c = Inr c'"
  shows "enrich_commit fetchPullRequest c' = Inr c'"
proof (cases "prNumber c")
  case None
  with e show ?thesis by (simp add: enrich_commit_def)
next
  case (Some n)
  show ?thesis
  proof (cases "n = 0")
    case True
    with Some e show ?thesis by (simp add: enrich_commit_def)
  next
    case False
    show ?thesis
    proof (cases "fetchPullRequest n")
      case (Found p)
      with Some False e have c': "c' = mergePR p c" by (simp add: enrich_commit_def)
      with Some have "prNumber c' = Some n" by (simp add: mergePR_prNumber)
      with Found False c' show ?thesis by (simp add: enrich_commit_def mergePR_idem)
    next
      case NotFound
      with Some False e show ?thesis by (simp add: enrich_commit_def)
    next
      case Failed
      with Some False e show ?thesis by (simp add: enrich_commit_def)
    qed
  qed
qed

lemma enrichCommitsWithPRData_idem:
  "enrichCommitsWithPRData fetchPullRequest cs = Inr cs' \<Longrightarrow>
   enrichCommitsWithPRData fetchPullRequest cs' = Inr cs'"
proof (induction cs arbitrary: cs')
  case Nil
  then show ?case by simp
next
  case (Cons c cs)
  from Cons.prems obtain c1 cs1 where
    c1: "enrich_commit fetchPullRequest c = Inr c1"
    and cs1: "enrichCommitsWithPRData fetchPullRequest cs = Inr cs1"
    and cs': "cs' = c1 # cs1"
    by (auto split: sum.splits)
  from enrich_commit_idem [OF c1] Cons.IH [OF cs1] cs' show ?case by simp
qed

text \<open>
  Claim C7. Merging a commit with a pull request is idempotent: merging the result again
  with the same pull request changes nothing. The same holds for the step of the enrichment
  loop on one commit, which looks the pull request up first, and for the whole pass over a
  commit list: run on its own result, with the same lookup, it returns that result.
\<close>

theorem merge_idempotent:
  "mergePR pr (mergePR pr c) = mergePR pr c \<and>
   (enrich_commit fetchPullRequest c = Inr c' \<longrightarrow> enrich_commit fetchPullRequest c' = Inr c') \<and>
   (enrichCommitsWithPRData fetchPullRequest cs = Inr cs' \<longrightarrow>
      enrichCommitsWithPRData fetchPullRequest cs' = Inr cs')"
  using mergePR_idem enrich_commit_idem enrichCommitsWithPRData_idem by blast

theorem merge_idempotent_witness:
  "enrich_commit sample_fetch (sample_commit\<lparr>type := Other\<rparr>) =
     Inr (mergePR sample_pr (sample_commit\<lparr>type := Other\<rparr>)) \<and>
   enrich_commit sample_fetch (mergePR sample_pr (sample_commit\<lparr>type := Other\<rparr>)) =
     Inr (mergePR sample_pr (sample_commit\<lparr>type := Other\<rparr>)) \<and>
   enrichCommitsWithPRData sample_fetch [mergePR sample_pr (sample_commit\<lparr>type := Other\<rparr>)] =
     Inr [mergePR sample_pr (sample_commit\<lparr>type := Other\<rparr>)] \<and>
   type (mergePR sample_pr (sample_commit\<lparr>type := Other\<rparr>)) = Fix \<and>
   breaking (mergePR sample_pr (sample_commit\<lparr>type := Other\<rparr>))"
proof -
  have e: "enrich_commit sample_fetch (sample_commit\<lparr>type := Other\<rparr>) =
     Inr (mergePR sample_pr (sample_commit\<lparr>type := Other\<rparr>))"
    by (simp add: enrich_commit_def sample_fetch_def sample_commit_def)
  have t: "type (mergePR sample_pr (sample_commit\<lparr>type := Other\<rparr>)) = Fix"
    "breaking (mergePR sample_pr (sample_commit\<lparr>type := Other\<rparr>))"
    by code_simp+
  from e have l: "enrichCommitsWithPRData sample_fetch [sample_commit\<lparr>type := Other\<rparr>] =
     Inr [mergePR sample_pr (sample_commit\<lparr>type := Other\<rparr>)]"
    by simp
  from merge_idempotent [of sample_pr "sample_commit\<lparr>type := Other\<rparr>" sample_fetch
      "mergePR sample_pr (sample_commit\<lparr>type := Other\<rparr>)"
      "[sample_commit\<lparr>type := Other\<rparr>]"
      "[mergePR sample_pr (sample_commit\<lparr>type := Other\<rparr>)]"] e l t
  show ?thesis by blast
qed

text \<open>
  Claim C6, as amended. The guard on the category \<open>other\<close> covers the labels only. For a
  commit whose category is not \<open>other\<close>, merging leaves the category, the breaking flag,
  the scope, the hash, the author, the date, the pull request number and the link as they
  were; the title is replaced by the title of the pull request when that one is strictly
  longer, and the body of the pull request is adopted when the commit has none and the
  pull request has one.
\<close>

theorem merge_frame:
  "type c \<noteq> Other \<longrightarrow>
     type (mergePR pr c) = type c \<and> breaking (mergePR pr c) = breaking c \<and>
     scope (mergePR pr c) = scope c \<and> sha (mergePR pr c) = sha c \<and>
     author (mergePR pr c) = author c \<and> date (mergePR pr c) = date c \<and>
     prNumber (mergePR pr c) = prNumber c \<and> commitUrl (mergePR pr c) = commitUrl c \<and>
     message (mergePR pr c) =
       (if length (message c) < length (title pr) then title pr else message c) \<and>
     description (mergePR pr c) =
       (if \<not> truthy (description c) \<and> truthy (body pr) then body pr else description c)"
  by (simp add: mergePR_def apply_labels_not_other apply_title_def apply_body_def)

theorem merge_frame_witness:
  "type sample_commit \<noteq> Other \<and>
   type (mergePR sample_pr sample_commit) = Fix \<and>
   \<not> breaking (mergePR sample_pr sample_commit) \<and>
   message (mergePR sample_pr sample_commit) = ''Fix typo in the installation guide''"
proof -
  have "type sample_commit \<noteq> Other" "type sample_commit = Fix" "\<not> breaking sample_commit"
    "length (message sample_commit) < length (title sample_pr)"
    "title sample_pr = ''Fix typo in the installation guide''"
    by (simp_all add: sample_commit_def sample_pr_def)
  with merge_frame [of sample_commit sample_pr] show ?thesis by simp
qed

text \<open>
  Claim C6 as stated fails: the sample commit has the category \<open>fix\<close>, and merging it
  with the sample pull request replaces its title and gives it a body.
\<close>

theorem merge_changes_title_counterexample:
  "type sample_commit = Fix \<and>
   message sample_commit = ''fix typo'' \<and>
   message (mergePR sample_pr sample_commit) = ''Fix typo in the installation guide'' \<and>
   description sample_commit = None \<and>
   description (mergePR sample_pr sample_commit) = Some ''Closes the report about the guide.''"
  by code_simp

section \<open>Statistics\<close>

lemma map_entry_keys: "map fst (AList.map_entry k f xs) = map fst xs"
  by (induction xs) auto

lemma sum_map_entry_Suc:
  "k \<in> set (map fst xs) \<Longrightarrow>
     sum_list (map snd (AList.map_entry k Suc xs)) = Suc (sum_list (map snd xs))"
  by (induction xs) auto

lemma all_commit_types_complete: "t \<in> set all_commit_types"
  by (cases t) (simp_all add: all_commit_types_def)

lemma count_commit_fields:
  "totalCommits (count_commit st c) = totalCommits st"
  "commitsByType (count_commit st c) = AList.map_entry (type c) Suc (commitsByType st)"
  "commitsByAuthor (count_commit st c) = count_up (commitsByAuthor st) (author c)"
  "breakingChanges (count_commit st c) = (if breaking c then Suc (breakingChanges st) else breakingChanges st)"
  by (simp_all add: count_commit_def)

lemma count_fold_by_type:
  "map fst (commitsByType st) = all_commit_types \<Longrightarrow>
     totalCommits (foldl count_commit st cs) = totalCommits st \<and>
     map fst (commitsByType (foldl count_commit st cs)) = all_commit_types \<and>
     sum_list (map snd (commitsByType (foldl count_commit st cs))) =
       sum_list (map snd (commitsByType st)) + length cs \<and>
     breakingChanges (foldl count_commit st cs) =
       breakingChanges st + length (filter breaking cs)"
proof (induction cs arbitrary: st)
  case Nil
  then show ?case by simp
next
  case (Cons c cs)
  have keys: "map fst (commitsByType (count_commit st c)) = all_commit_types"
    using Cons.prems by (simp add: count_commit_fields map_entry_keys)
  have "type c \<in> set (map fst (commitsByType st))"
    using Cons.prems all_commit_types_complete by simp
  then have sum: "sum_list (map snd (commitsByType (count_commit st c))) =
      Suc (sum_list (map snd (commitsByType st)))"
    by (simp add: count_commit_fields sum_map_entry_Suc)
  from Cons.IH [OF keys] sum show ?case
    by (simp add: count_commit_fields)
qed

lemma numeric_total_update:
  "numeric_total obj = Some n \<Longrightarrow>
     numeric_total
       (AList.update k
          (case map_of obj k of Some (JNumber m) \<Rightarrow> JNumber (m + 1) | _ \<Rightarrow> JNumber 1) obj) =
     Some (Suc n)"
proof (induction obj arbitrary: n rule: numeric_total.induct)
  case 1
  then show ?case by simp
next
  case (2 k' a es)
  then obtain r where r: "numeric_total es = Some r" "n = a + r" by auto
  show ?case
  proof (cases "k' = k")
    case True
    with r show ?thesis by simp
  next
    case False
    with 2(1) [OF r(1)] r show ?thesis by simp
  qed
next
  case (3 k' s es)
  then show ?case by simp
qed

lemma numeric_total_values:
  "numeric_total obj = Some n \<Longrightarrow> map_of obj k = Some v \<Longrightarrow> \<exists>m. v = JNumber m"
  by (induction obj arbitrary: n rule: numeric_total.induct) (auto split: if_splits)

lemma count_up_numeric:
  assumes k: "k \<notin> set object_prototype_keys" and n: "numeric_total obj = Some n"
  shows "numeric_total (count_up obj k) = Some (Suc n)"
proof -
  from k have proto: "k \<noteq> ''__proto__''" by (auto simp: object_prototype_keys_def)
  have "(case get_property obj k of
           Own (JNumber n) \<Rightarrow> JNumber (n + 1)
         | Own (JString s) \<Rightarrow> if s = [] then JNumber 1 else JString (s @ ''1'')
         | Inherited \<Rightarrow> JString (inherited_text k @ ''1'')
         | Undefined \<Rightarrow> JNumber 1) =
        (case map_of obj k of Some (JNumber m) \<Rightarrow> JNumber (m + 1) | _ \<Rightarrow> JNumber 1)"
  proof (cases "map_of obj k")
    case None
    with k show ?thesis by (simp add: get_property_def)
  next
    case (Some v)
    with numeric_total_values [OF n Some] show ?thesis by (auto simp: get_property_def)
  qed
  with proto numeric_total_update [OF n, of k] show ?thesis
    by (simp add: count_up_def Let_def)
qed

lemma count_fold_by_author:
  "\<forall>c\<in>set cs. author c \<notin> set object_prototype_keys \<Longrightarrow>
   numeric_total (commitsByAuthor st) = Some n \<Longrightarrow>
   numeric_total (commitsByAuthor (foldl count_commit st cs)) = Some (n + length cs)"
proof (induction cs arbitrary: st n)
  case Nil
  then show ?case by simp
next
  case (Cons c cs)
  from Cons.prems have "numeric_total (commitsByAuthor (count_commit st c)) = Some (Suc n)"
    by (simp add: count_commit_fields count_up_numeric)
  with Cons.IH [of "count_commit st c" "Suc n"] Cons.prems(1) show ?case by simp
qed

text \<open>
  What holds of the statistics of every commit list: the total is the length of the list,
  the table by type has the nine keys and its counts sum to the total, and the count of
  breaking changes is the number of commits flagged breaking. The counts by author sum to
  the total as well when no author is named like a property that an object inherits.
\<close>

lemma calculateStats_invariants:
  "totalCommits (calculateStats cs) = length cs \<and>
   map fst (commitsByType (calculateStats cs)) = all_commit_types \<and>
   sum_list (map snd (commitsByType (calculateStats cs))) = length cs \<and>
   breakingChanges (calculateStats cs) = length (filter breaking cs) \<and>
   ((\<forall>c\<in>set cs. author c \<notin> set object_prototype_keys) \<longrightarrow>
      numeric_total (commitsByAuthor (calculateStats cs)) = Some (length cs))"
proof -
  let ?st = "\<lparr>totalCommits = length cs, commitsByType = map (\<lambda>t. (t, 0)) all_commit_types,
        commitsByAuthor = [], commitsByScope = [], breakingChanges = 0\<rparr>"
  have keys: "map fst (commitsByType ?st) = all_commit_types" by (simp add: comp_def)
  have zero: "sum_list (map snd (commitsByType ?st)) = 0" by (simp add: comp_def)
  from count_fold_by_type [OF keys, of cs] zero
  have a: "totalCommits (calculateStats cs) = length cs \<and>
   map fst (commitsByType (calculateStats cs)) = all_commit_types \<and>
   sum_list (map snd (commitsByType (calculateStats cs))) = length cs \<and>
   breakingChanges (calculateStats cs) = length (filter breaking cs)"
    by (simp add: calculateStats_def)
  have b: "numeric_total (commitsByAuthor (calculateStats cs)) = Some (length cs)"
    if "\<forall>c\<in>set cs. author c \<notin> set object_prototype_keys"
    using count_fold_by_author [OF that, of ?st 0] by (simp add: calculateStats_def)
  from a b show ?thesis by blast
qed

text \<open>
  Claim C1 says that for every commit list the counts by author sum to the total. The
  code misses a case: \<open>commitsByAuthor\<close> is a plain object, and an author named like an
  inherited property (\<open>constructor\<close>, \<open>toString\<close>, ...) makes
  \<open>(stats.commitsByAuthor[commit.author] || 0) + 1\<close> read the inherited function and store
  its text followed by \<open>1\<close>, not a number; for the author \<open>__proto__\<close> nothing is stored.
  One commit by \<open>constructor\<close>: the total is 1 and the count of that author is a
  string; one commit by \<open>__proto__\<close>: the table by author stays empty.
\<close>

theorem stats_inherited_author:
  "totalCommits (calculateStats [sample_commit\<lparr>author := ''constructor''\<rparr>]) = 1 \<and>
   commitsByAuthor (calculateStats [sample_commit\<lparr>author := ''constructor''\<rparr>]) =
     [(''constructor'', JString ''function Object() { [native code] }1'')] \<and>
   numeric_total (commitsByAuthor (calculateStats [sample_commit\<lparr>author := ''constructor''\<rparr>])) = None \<and>
   commitsByAuthor (calculateStats [sample_commit\<lparr>author := ''__proto__''\<rparr>]) = []"
  by code_simp

section \<open>Grouping and sections\<close>

lemma set_insert_index: "set (insert_index e xs) = insert e (set xs)"
  by (induction xs) auto

lemma set_sorted_indices: "set (foldr insert_index es []) = set es"
  by (induction es) (simp_all add: set_insert_index)

lemma set_entries: "set (entries obj) = set obj"
  by (auto simp: entries_def set_sorted_indices)

lemma sections_member:
  "sec \<in> set (sections grouped) \<longleftrightarrow>
     sec \<in> set grouped \<and> snd sec \<noteq> [] \<and> fst sec \<noteq> ''breaking''"
  by (auto simp: sections_def set_entries)

lemma set_update_subset: "set (AList.update k v al) \<subseteq> insert (k, v) (set al)"
  by (induction al) auto

lemma set_map_entry_subset:
  "p \<in> set (AList.map_entry k f al) \<Longrightarrow> p \<in> set al \<or> (\<exists>v. (k, v) \<in> set al \<and> p = (k, f v))"
  by (induction al) (auto split: if_splits)

lemma buckets_ok_update:
  assumes ok: "buckets_ok key S grouped" and v: "\<forall>x\<in>set v. key x = k \<and> x \<in> S"
  shows "buckets_ok key S (AList.update k v grouped)"
  unfolding buckets_ok_def
proof
  fix p
  assume "p \<in> set (AList.update k v grouped)"
  with set_update_subset [of k v grouped] have "p = (k, v) \<or> p \<in> set grouped" by auto
  then show "\<forall>x\<in>set (snd p). key x = fst p \<and> x \<in> S"
  proof
    assume "p = (k, v)"
    with v show ?thesis by simp
  next
    assume "p \<in> set grouped"
    with ok show ?thesis unfolding buckets_ok_def by blast
  qed
qed

lemma buckets_ok_push:
  assumes ok: "buckets_ok key S grouped" and c: "c \<in> S"
    and p: "push_commit grouped (key c) c = Inr grouped'"
  shows "buckets_ok key S grouped'"
proof (cases "get_property grouped (key c)")
  case (Own cs)
  then have "map_of grouped (key c) = Some cs"
    by (auto simp: get_property_def split: option.splits if_splits)
  then have "(key c, cs) \<in> set grouped" by (rule map_of_SomeD)
  with ok have "\<forall>x\<in>set (snd (key c, cs)). key x = fst (key c, cs) \<and> x \<in> S"
    unfolding buckets_ok_def by blast
  with c have "\<forall>x\<in>set (cs @ [c]). key x = key c \<and> x \<in> S" by simp
  from buckets_ok_update [OF ok this] p Own show ?thesis
    by (simp add: push_commit_def)
next
  case Inherited
  with p show ?thesis by (simp add: push_commit_def)
next
  case Undefined
  from c have "\<forall>x\<in>set [c]. key x = key c \<and> x \<in> S" by simp
  from buckets_ok_update [OF ok this] p Undefined show ?thesis
    by (simp add: push_commit_def)
qed

lemma buckets_ok_group_commits:
  "group_commits key grouped cs = Inr grouped' \<Longrightarrow> buckets_ok key S grouped \<Longrightarrow>
   set cs \<subseteq> S \<Longrightarrow> buckets_ok key S grouped'"
proof (induction cs arbitrary: grouped)
  case Nil
  then show ?case by simp
next
  case (Cons c cs)
  from Cons.prems(1) obtain g1 where
    p: "push_commit grouped (key c) c = Inr g1" and r: "group_commits key g1 cs = Inr grouped'"
    by (auto split: sum.splits)
  from Cons.prems(3) have "c \<in> S" by simp
  from buckets_ok_push [of key S grouped c g1, OF Cons.prems(2) this p]
  have "buckets_ok key S g1" .
  with Cons.IH [OF r] Cons.prems(3) show ?case by simp
qed

lemma buckets_ok_map_entry:
  assumes ok: "buckets_ok key S grouped" and c: "c \<in> S"
  shows "buckets_ok key S (AList.map_entry (key c) (\<lambda>cs. cs @ [c]) grouped)"
  unfolding buckets_ok_def
proof
  fix p
  assume "p \<in> set (AList.map_entry (key c) (\<lambda>cs. cs @ [c]) grouped)"
  from set_map_entry_subset [OF this]
  show "\<forall>x\<in>set (snd p). key x = fst p \<and> x \<in> S"
  proof
    assume "p \<in> set grouped"
    with ok show ?thesis unfolding buckets_ok_def by blast
  next
    assume "\<exists>v. (key c, v) \<in> set grouped \<and> p = (key c, v @ [c])"
    then obtain v where v: "(key c, v) \<in> set grouped" and p: "p = (key c, v @ [c])" by blast
    from ok v have "\<forall>x\<in>set (snd (key c, v)). key x = fst (key c, v) \<and> x \<in> S"
      unfolding buckets_ok_def by blast
    with c p show ?thesis by simp
  qed
qed

lemma buckets_ok_by_type:
  "buckets_ok group_key_by_type S grouped \<Longrightarrow> set cs \<subseteq> S \<Longrightarrow>
   buckets_ok group_key_by_type S
     (foldl (\<lambda>grouped c. AList.map_entry (group_key_by_type c) (\<lambda>cs. cs @ [c]) grouped) grouped cs)"
proof (induction cs arbitrary: grouped)
  case Nil
  then show ?case by simp
next
  case (Cons c cs)
  from Cons.prems have "buckets_ok group_key_by_type S
      (AList.map_entry (group_key_by_type c) (\<lambda>cs. cs @ [c]) grouped)"
    by (intro buckets_ok_map_entry) simp_all
  with Cons.IH Cons.prems(2) show ?case by simp
qed

lemma buckets_ok_grouped_commits:
  assumes "grouped_commits groupBy cs = Inr grouped"
  shows "buckets_ok (group_key groupBy) (set cs) grouped"
proof (cases groupBy)
  case ByType
  have "buckets_ok group_key_by_type (set cs) (map (\<lambda>t. (commit_type_name t, [])) all_commit_types)"
    by (auto simp: buckets_ok_def)
  from buckets_ok_by_type [OF this, of cs] assms ByType show ?thesis
    by (simp add: grouped_commits_def groupCommitsByType_def group_key_def)
next
  case ByScope
  have "buckets_ok scope_key (set cs) []" by (simp add: buckets_ok_def)
  with assms ByScope buckets_ok_group_commits [of scope_key "[]" cs grouped "set cs"]
  show ?thesis by (simp add: grouped_commits_def groupCommitsByScope_def group_key_def)
next
  case ByAuthor
  have "buckets_ok author (set cs) []" by (simp add: buckets_ok_def)
  with assms ByAuthor buckets_ok_group_commits [of author "[]" cs grouped "set cs"]
  show ?thesis by (simp add: grouped_commits_def groupCommitsByAuthor_def group_key_def)
qed

lemma section_members:
  assumes g: "grouped_commits groupBy cs = Inr grouped"
    and sec: "sec \<in> set (sections grouped)" and x: "x \<in> set (snd sec)"
  shows "x \<in> set cs \<and> fst sec \<noteq> ''breaking'' \<and> group_key groupBy x = fst sec"
proof -
  from sec have "sec \<in> set grouped" "fst sec \<noteq> ''breaking''"
    by (simp_all add: sections_member)
  with buckets_ok_grouped_commits [OF g] x show ?thesis
    unfolding buckets_ok_def by blast
qed

lemma push_commit_cases:
  "push_commit grouped k c =
     (if map_of grouped k = None \<and> k \<in> set object_prototype_keys then Inl TypeError
      else Inr (AList.update k ((case map_of grouped k of Some cs \<Rightarrow> cs | None \<Rightarrow> []) @ [c]) grouped))"
  by (simp add: push_commit_def get_property_def split: option.splits)

lemma in_bucket_push:
  assumes "push_commit grouped k c = Inr g1"
  shows "in_bucket g1 k c" and "in_bucket grouped k' x \<Longrightarrow> in_bucket g1 k' x"
proof -
  from assms have g1: "g1 = AList.update k
      ((case map_of grouped k of Some cs \<Rightarrow> cs | None \<Rightarrow> []) @ [c]) grouped"
    by (simp add: push_commit_cases split: if_splits)
  then show "in_bucket g1 k c" by (simp add: in_bucket_def update_conv')
  assume "in_bucket grouped k' x"
  with g1 show "in_bucket g1 k' x"
    by (auto simp: in_bucket_def update_conv' split: option.splits)
qed

lemma in_bucket_kept:
  "group_commits key grouped cs = Inr grouped' \<Longrightarrow> in_bucket grouped k x \<Longrightarrow>
   in_bucket grouped' k x"
proof (induction cs arbitrary: grouped)
  case Nil
  then show ?case by simp
next
  case (Cons a cs)
  from Cons.prems(1) obtain g1 where
    p: "push_commit grouped (key a) a = Inr g1" and r: "group_commits key g1 cs = Inr grouped'"
    by (auto split: sum.splits)
  from in_bucket_push(2) [OF p Cons.prems(2)] have "in_bucket g1 k x" .
  with Cons.IH [OF r] show ?case .
qed

lemma in_bucket_group_commits:
  "group_commits key grouped cs = Inr grouped' \<Longrightarrow> c \<in> set cs \<Longrightarrow>
   in_bucket grouped' (key c) c"
proof (induction cs arbitrary: grouped)
  case Nil
  then show ?case by simp
next
  case (Cons a cs)
  from Cons.prems(1) obtain g1 where
    p: "push_commit grouped (key a) a = Inr g1" and r: "group_commits key g1 cs = Inr grouped'"
    by (auto split: sum.splits)
  show ?case
  proof (cases "c \<in> set cs")
    case True
    with Cons.IH [OF r] show ?thesis .
  next
    case False
    with Cons.prems(2) have "c = a" by simp
    with in_bucket_push(1) [OF p] have "in_bucket g1 (key c) c" by simp
    with in_bucket_kept [OF r] show ?thesis .
  qed
qed

lemma in_bucket_member:
  "in_bucket grouped k c \<Longrightarrow> \<exists>v. (k, v) \<in> set grouped \<and> c \<in> set v"
  by (auto simp: in_bucket_def split: option.splits dest: map_of_SomeD)

lemma group_commits_files_every_commit:
  assumes "group_commits key [] cs = Inr grouped" "c \<in> set cs"
  shows "\<exists>v. (key c, v) \<in> set grouped \<and> c \<in> set v"
  using in_bucket_group_commits [OF assms] by (rule in_bucket_member)


section \<open>Rendering\<close>

text \<open>
  When rendering fails and when it returns a text. An unrecognised format always fails
  with the error \<open>Unsupported format\<close>, before any text is made. The format \<open>json\<close>
  always returns a text. The formats \<open>markdown\<close> and \<open>text\<close> return a text unless a
  non-breaking commit has a scope (when grouping by scope) or an author (when grouping by
  author) named like an inherited property; then the push into the bucket raises a
  TypeError.
\<close>

lemma own_clean_update:
  "own_clean obj \<Longrightarrow> k \<notin> set object_prototype_keys \<Longrightarrow> own_clean (AList.update k v obj)"
  unfolding own_clean_def by (induction obj) auto

lemma own_clean_map_of:
  "own_clean obj \<Longrightarrow> k \<in> set object_prototype_keys \<Longrightarrow> map_of obj k = None"
  unfolding own_clean_def by (induction obj) auto

lemma group_commits_clash:
  "own_clean grouped \<Longrightarrow> \<exists>c\<in>set cs. key c \<in> set object_prototype_keys \<Longrightarrow>
   group_commits key grouped cs = Inl TypeError"
proof (induction cs arbitrary: grouped)
  case Nil
  then show ?case by simp
next
  case (Cons a cs)
  show ?case
  proof (cases "key a \<in> set object_prototype_keys")
    case True
    with Cons.prems(1) show ?thesis
      by (simp add: push_commit_cases own_clean_map_of)
  next
    case False
    with Cons.prems(2) have rest: "\<exists>c\<in>set cs. key c \<in> set object_prototype_keys" by auto
    from False obtain g1 where p: "push_commit grouped (key a) a = Inr g1"
      by (simp add: push_commit_cases)
    with False Cons.prems(1) have "own_clean g1"
      by (auto simp: push_commit_cases own_clean_update)
    from Cons.IH [OF this rest] p show ?thesis by simp
  qed
qed

lemma group_commits_no_clash:
  "\<forall>c\<in>set cs. key c \<notin> set object_prototype_keys \<Longrightarrow>
   \<exists>grouped'. group_commits key grouped cs = Inr grouped'"
proof (induction cs arbitrary: grouped)
  case Nil
  then show ?case by simp
next
  case (Cons a cs)
  then obtain g1 where p: "push_commit grouped (key a) a = Inr g1"
    by (simp add: push_commit_cases)
  from Cons.IH [of g1] Cons.prems p show ?case by simp
qed

lemma grouped_commits_outcome:
  "(if \<exists>c\<in>set cs. groupBy \<noteq> ByType \<and> group_key groupBy c \<in> set object_prototype_keys
    then grouped_commits groupBy cs = Inl TypeError
    else \<exists>grouped. grouped_commits groupBy cs = Inr grouped)"
proof (cases groupBy)
  case ByType
  then show ?thesis by (simp add: grouped_commits_def)
next
  case ByScope
  have "own_clean ([] :: ParsedCommit list js_object)" by (simp add: own_clean_def)
  from group_commits_clash [OF this, of cs scope_key] group_commits_no_clash [of cs scope_key "[]"]
  show ?thesis using ByScope
    by (auto simp: grouped_commits_def groupCommitsByScope_def group_key_def)
next
  case ByAuthor
  have "own_clean ([] :: ParsedCommit list js_object)" by (simp add: own_clean_def)
  from group_commits_clash [OF this, of cs author] group_commits_no_clash [of cs author "[]"]
  show ?thesis using ByAuthor
    by (auto simp: grouped_commits_def groupCommitsByAuthor_def group_key_def)
qed

lemma generateMarkdown_outcome:
  "(if \<exists>c\<in>set commits. clashes groupBy c
    then generateMarkdown env (releaseNotes_of env commits options) groupBy = Inl TypeError
    else \<exists>text. generateMarkdown env (releaseNotes_of env commits options) groupBy = Inr text)"
proof -
  let ?cs = "filter (\<lambda>c. \<not> breaking c) commits"
  have eq: "(\<exists>c\<in>set commits. clashes groupBy c) \<longleftrightarrow>
      (\<exists>c\<in>set ?cs. groupBy \<noteq> ByType \<and> group_key groupBy c \<in> set object_prototype_keys)"
    by (auto simp: clashes_def)
  have rn: "rn_commits (releaseNotes_of env commits options) = ?cs"
    by (simp add: releaseNotes_of_def)
  show ?thesis
  proof (cases "\<exists>c\<in>set commits. clashes groupBy c")
    case True
    with eq have "\<exists>c\<in>set ?cs. groupBy \<noteq> ByType \<and>
        group_key groupBy c \<in> set object_prototype_keys" by blast
    with grouped_commits_outcome [of ?cs groupBy]
    have "grouped_commits groupBy ?cs = Inl TypeError" by presburger
    with True rn show ?thesis by (simp add: generateMarkdown_def)
  next
    case False
    with eq have "\<not> (\<exists>c\<in>set ?cs. groupBy \<noteq> ByType \<and>
        group_key groupBy c \<in> set object_prototype_keys)" by blast
    with grouped_commits_outcome [of ?cs groupBy]
    have "\<exists>grouped. grouped_commits groupBy ?cs = Inr grouped" by presburger
    then obtain grouped where "grouped_commits groupBy ?cs = Inr grouped" ..
    with False rn show ?thesis by (simp add: generateMarkdown_def)
  qed
qed

lemma generateReleaseNotes_outcome:
  "(format_of options \<notin> {''markdown'', ''json'', ''text''} \<longrightarrow>
      generateReleaseNotes env commits options =
        Inl (Error (''Unsupported format: '' @ format_of options))) \<and>
   (format_of options = ''json'' \<longrightarrow>
      generateReleaseNotes env commits options =
        Inr (json_stringify env (releaseNotes_of env commits options))) \<and>
   (format_of options \<in> {''markdown'', ''text''} \<longrightarrow>
      (if \<exists>c\<in>set commits. clashes (groupBy_of options) c
       then generateReleaseNotes env commits options = Inl TypeError
       else \<exists>text. generateReleaseNotes env commits options = Inr text))"
proof (intro conjI impI)
  assume "format_of options \<notin> {''markdown'', ''json'', ''text''}"
  then show "generateReleaseNotes env commits options =
        Inl (Error (''Unsupported format: '' @ format_of options))"
    by (simp add: generateReleaseNotes_def format_of_def Let_def)
next
  assume "format_of options = ''json''"
  then show "generateReleaseNotes env commits options =
        Inr (json_stringify env (releaseNotes_of env commits options))"
    by (simp add: generateReleaseNotes_def format_of_def Let_def)
next
  assume f: "format_of options \<in> {''markdown'', ''text''}"
  from generateMarkdown_outcome [of commits "groupBy_of options" env options]
  show "if \<exists>c\<in>set commits. clashes (groupBy_of options) c
       then generateReleaseNotes env commits options = Inl TypeError
       else \<exists>text. generateReleaseNotes env commits options = Inr text"
    using f
    by (auto simp: generateReleaseNotes_def generatePlainText_def format_of_def groupBy_of_def
        Let_def split: if_splits)
qed

text \<open>
  Claim C9 says that every recognised encoding produces a text for every commit list and
  all options. The code misses a case: \<open>groupCommitsByScope\<close> and
  \<open>groupCommitsByAuthor\<close> file the commits in a plain object, and for a key named like an
  inherited property (\<open>constructor\<close>, \<open>toString\<close>, ...) \<open>grouped[key]\<close> is the
  inherited function, which is truthy and has no \<open>push\<close>. One commit
  \<open>fix(constructor): ...\<close> rendered by scope as \<open>markdown\<close> or \<open>text\<close>, or one commit by
  the author \<open>toString\<close> rendered by author: the call raises a TypeError and returns no
  text.
\<close>

theorem render_inherited_scope:
  "generateReleaseNotes env [sample_commit\<lparr>scope := Some ''constructor''\<rparr>]
     (sample_options ByScope ''markdown'') = Inl TypeError \<and>
   generateReleaseNotes env [sample_commit\<lparr>scope := Some ''constructor''\<rparr>]
     (sample_options ByScope ''text'') = Inl TypeError \<and>
   generateReleaseNotes env [sample_commit\<lparr>author := ''toString''\<rparr>]
     (sample_options ByAuthor ''markdown'') = Inl TypeError"
  by (simp add: generateReleaseNotes_def generatePlainText_def generateMarkdown_def
      releaseNotes_of_def grouped_commits_def groupCommitsByScope_def groupCommitsByAuthor_def
      push_commit_def get_property_def object_prototype_keys_def scope_key_def
      sample_commit_def sample_options_def)

section \<open>Breaking commits and sections named breaking\<close>

lemma releaseNotes_of_lists:
  "rn_breakingChanges (releaseNotes_of env commits options) = filter breaking commits"
  "rn_commits (releaseNotes_of env commits options) = filter (\<lambda>c. \<not> breaking c) commits"
  by (simp_all add: releaseNotes_of_def)

lemma in_sections:
  assumes g: "grouped_commits groupBy cs = Inr grouped"
    and x: "x \<in> set (concat (map snd (sections grouped)))"
  shows "x \<in> set cs \<and> group_key groupBy x \<noteq> ''breaking''"
proof -
  from x obtain sec where "sec \<in> set (sections grouped)" "x \<in> set (snd sec)" by auto
  from section_members [OF g this] show ?thesis by simp
qed

lemma in_bucket_map_entry:
  assumes "map_of grouped k \<noteq> None"
  shows "in_bucket (AList.map_entry k (\<lambda>cs. cs @ [c]) grouped) k c"
    and "in_bucket grouped k' x \<Longrightarrow> in_bucket (AList.map_entry k (\<lambda>cs. cs @ [c]) grouped) k' x"
  using assms by (auto simp: in_bucket_def map_of_map_entry split: option.splits)

lemma map_of_keys: "map_of xs k \<noteq> None \<longleftrightarrow> k \<in> set (map fst xs)"
  by (induction xs) auto

lemma type_key_present:
  "map fst grouped = map commit_type_name all_commit_types \<Longrightarrow>
   map_of grouped (group_key_by_type c) \<noteq> None"
  unfolding map_of_keys group_key_by_type_def
  using all_commit_types_complete by simp

lemma by_type_kept:
  "map fst grouped = map commit_type_name all_commit_types \<Longrightarrow> in_bucket grouped k x \<Longrightarrow>
   in_bucket
     (foldl (\<lambda>grouped c. AList.map_entry (group_key_by_type c) (\<lambda>cs. cs @ [c]) grouped) grouped cs)
     k x"
proof (induction cs arbitrary: grouped)
  case Nil
  then show ?case by simp
next
  case (Cons a cs)
  let ?g = "AList.map_entry (group_key_by_type a) (\<lambda>cs. cs @ [a]) grouped"
  have keys: "map fst ?g = map commit_type_name all_commit_types"
    using Cons.prems(1) by (simp add: map_entry_keys)
  from in_bucket_map_entry(2) [OF type_key_present [OF Cons.prems(1)] Cons.prems(2)]
  have "in_bucket ?g k x" .
  from Cons.IH [OF keys this] show ?case by simp
qed

lemma by_type_files:
  "map fst grouped = map commit_type_name all_commit_types \<Longrightarrow> c \<in> set cs \<Longrightarrow>
   in_bucket
     (foldl (\<lambda>grouped c. AList.map_entry (group_key_by_type c) (\<lambda>cs. cs @ [c]) grouped) grouped cs)
     (group_key_by_type c) c"
proof (induction cs arbitrary: grouped)
  case Nil
  then show ?case by simp
next
  case (Cons a cs)
  let ?g = "AList.map_entry (group_key_by_type a) (\<lambda>cs. cs @ [a]) grouped"
  have keys: "map fst ?g = map commit_type_name all_commit_types"
    using Cons.prems(1) by (simp add: map_entry_keys)
  show ?case
  proof (cases "c \<in> set cs")
    case True
    from Cons.IH [OF keys True] show ?thesis by simp
  next
    case False
    with Cons.prems(2) have "c = a" by simp
    with in_bucket_map_entry(1) [OF type_key_present [OF Cons.prems(1)], of a]
    have "in_bucket ?g (group_key_by_type c) c" by simp
    from by_type_kept [OF keys this] show ?thesis by simp
  qed
qed

lemma grouped_commits_files:
  assumes g: "grouped_commits groupBy cs = Inr grouped" and c: "c \<in> set cs"
  shows "in_bucket grouped (group_key groupBy c) c"
proof (cases groupBy)
  case ByType
  have "map fst (map (\<lambda>t. (commit_type_name t, [] :: ParsedCommit list)) all_commit_types) =
      map commit_type_name all_commit_types"
    by (simp add: comp_def)
  from by_type_files [OF this c] g ByType show ?thesis
    by (simp add: grouped_commits_def groupCommitsByType_def group_key_def)
next
  case ByScope
  with g in_bucket_group_commits [of scope_key "[]" cs grouped c] c show ?thesis
    by (simp add: grouped_commits_def groupCommitsByScope_def group_key_def)
next
  case ByAuthor
  with g in_bucket_group_commits [of author "[]" cs grouped c] c show ?thesis
    by (simp add: grouped_commits_def groupCommitsByAuthor_def group_key_def)
qed

lemma sections_file:
  assumes g: "grouped_commits groupBy cs = Inr grouped" and c: "c \<in> set cs"
    and k: "group_key groupBy c \<noteq> ''breaking''"
  shows "\<exists>v. (group_key groupBy c, v) \<in> set (sections grouped) \<and> c \<in> set v"
proof -
  from in_bucket_member [OF grouped_commits_files [OF g c]] obtain v where
    v: "(group_key groupBy c, v) \<in> set grouped" "c \<in> set v" by blast
  then have "v \<noteq> []" by auto
  with v k have "(group_key groupBy c, v) \<in> set (sections grouped)"
    by (simp add: sections_member)
  with v show ?thesis by blast
qed

lemma includes_join: "l \<in> set ls \<Longrightarrow> str_includes (join_lines ls) l"
proof (induction ls rule: join_lines.induct)
  case 1
  then show ?case by simp
next
  case (2 x)
  then have "join_lines [x] = [] @ l @ []" by simp
  then show ?case unfolding str_includes_iff by blast
next
  case (3 x y ys)
  show ?case
  proof (cases "l = x")
    case True
    then have "join_lines (x # y # ys) = [] @ l @ (NL # join_lines (y # ys))" by simp
    then show ?thesis unfolding str_includes_iff by blast
  next
    case False
    with 3 have "str_includes (join_lines (y # ys)) l" by simp
    then obtain p q where "join_lines (y # ys) = p @ l @ q" unfolding str_includes_iff by blast
    then have "join_lines (x # y # ys) = (x @ NL # p) @ l @ q" by simp
    then show ?thesis unfolding str_includes_iff by blast
  qed
qed

lemma breaking_line_listed:
  "c \<in> set cs \<Longrightarrow> breaking_line c \<in> set (breaking_lines cs)"
  by (auto simp: breaking_lines_def commit_lines_def breaking_line_def)

lemma grouped_line_listed:
  "sec \<in> set secs \<Longrightarrow> c \<in> set (snd sec) \<Longrightarrow>
   grouped_line groupBy c \<in> set (concat (map (section_lines groupBy) secs))"
  by (auto simp: section_lines_def commit_lines_def grouped_line_def)

lemma markdown_shape:
  assumes f: "format_of options = ''markdown''"
    and r: "generateReleaseNotes env commits options = Inr text"
  shows "\<exists>grouped.
           grouped_commits (groupBy_of options) (filter (\<lambda>c. \<not> breaking c) commits) = Inr grouped \<and>
           text = join_lines
                    (header_lines env (releaseNotes_of env commits options) @
                     breaking_lines (filter breaking commits) @
                     concat (map (section_lines (groupBy_of options)) (sections grouped)) @
                     stats_part options commits)"
proof -
  from f r have md: "generateMarkdown env (releaseNotes_of env commits options) (groupBy_of options) = Inr text"
    by (simp add: generateReleaseNotes_def format_of_def groupBy_of_def Let_def)
  then obtain grouped where
    g: "grouped_commits (groupBy_of options) (filter (\<lambda>c. \<not> breaking c) commits) = Inr grouped"
    by (auto simp: generateMarkdown_def releaseNotes_of_lists split: sum.splits)
  have st: "(case rn_stats (releaseNotes_of env commits options) of
              Some st \<Rightarrow> stats_lines st | None \<Rightarrow> []) = stats_part options commits"
    by (simp add: releaseNotes_of_def stats_part_def includeStats_of_def)
  from md g st show ?thesis
    by (simp add: generateMarkdown_def releaseNotes_of_lists)
qed

lemma plain_text_shape:
  assumes f: "format_of options = ''text''"
  shows "generateReleaseNotes env commits options =
           (case generateReleaseNotes env commits (options\<lparr>o_format := Some ''markdown''\<rparr>) of
              Inl e \<Rightarrow> Inl e
            | Inr md \<Rightarrow> Inr (plain_text md))"
proof -
  have rn: "releaseNotes_of env commits (options\<lparr>o_format := Some ''markdown''\<rparr>) =
      releaseNotes_of env commits options"
    by (simp add: releaseNotes_of_def)
  from f show ?thesis
    by (simp add: generateReleaseNotes_def generatePlainText_def plain_text_def format_of_def
        Let_def rn split: sum.splits)
qed

lemma rendered_breaking:
  assumes t: "text = join_lines (h @ breaking_lines (filter breaking commits) @ rest)"
    and c: "c \<in> set commits" "breaking c"
  shows "breaking_line c \<in> set (breaking_lines (filter breaking commits)) \<and>
         str_includes text (breaking_line c)"
proof -
  from c have l: "breaking_line c \<in> set (breaking_lines (filter breaking commits))"
    by (intro breaking_line_listed) simp
  then have "breaking_line c \<in> set (h @ breaking_lines (filter breaking commits) @ rest)" by simp
  from includes_join [OF this] t l show ?thesis by simp
qed

lemma markdown_default:
  "format_of options = ''markdown'' \<Longrightarrow>
   generateReleaseNotes env commits (options\<lparr>o_format := Some ''markdown''\<rparr>) =
   generateReleaseNotes env commits options"
  by (simp add: generateReleaseNotes_def format_of_def groupBy_of_def releaseNotes_of_def Let_def)

lemma plain_text_of_markdown:
  assumes f: "format_of options = ''markdown''"
    and r: "generateReleaseNotes env commits options = Inr text"
  shows "generateReleaseNotes env commits (options\<lparr>o_format := Some ''text''\<rparr>) =
         Inr (plain_text text)"
proof -
  have "format_of (options\<lparr>o_format := Some ''text''\<rparr>) = ''text''"
    by (simp add: format_of_def)
  from plain_text_shape [OF this, of env commits] markdown_default [OF f, of env commits] r
  show ?thesis by simp
qed

text \<open>
  Dropping the commits that are filed under the name \<open>breaking\<close> changes no grouped section:
  the bucket of that name is the only one that differs, and it is not rendered.
\<close>

lemma get_property_delete:
  "k \<noteq> b \<Longrightarrow> get_property (AList.delete b g) k = get_property g k"
  by (simp add: get_property_def delete_conv)

lemma push_commit_delete:
  assumes "k \<noteq> b"
  shows "push_commit (AList.delete b g) k c =
         (case push_commit g k c of Inl e \<Rightarrow> Inl e | Inr g' \<Rightarrow> Inr (AList.delete b g'))"
  using assms
  by (simp add: push_commit_def get_property_delete delete_update split: property.splits)

lemma push_commit_same:
  assumes "b \<notin> set object_prototype_keys"
  shows "\<exists>g'. push_commit g b c = Inr g' \<and> AList.delete b g' = AList.delete b g"
  using assms
  by (auto simp: push_commit_def get_property_def delete_update delete_update_same
      split: option.splits)

lemma group_commits_delete:
  assumes b: "b \<notin> set object_prototype_keys"
  shows "group_commits key (AList.delete b g) (filter (\<lambda>c. key c \<noteq> b) cs) =
         (case group_commits key g cs of Inl e \<Rightarrow> Inl e | Inr g' \<Rightarrow> Inr (AList.delete b g'))"
proof (induction cs arbitrary: g)
  case Nil
  then show ?case by simp
next
  case (Cons a cs)
  show ?case
  proof (cases "key a = b")
    case True
    from push_commit_same [OF b, of g a] obtain g' where
      g': "push_commit g b a = Inr g'" "AList.delete b g' = AList.delete b g" by blast
    from Cons.IH [of g'] g' True show ?thesis by simp
  next
    case False
    show ?thesis
    proof (cases "push_commit g (key a) a")
      case (Inl e)
      with False push_commit_delete [OF False, of g a] show ?thesis by simp
    next
      case (Inr g')
      with False push_commit_delete [OF False, of g a] Cons.IH [of g'] show ?thesis by simp
    qed
  qed
qed

lemma delete_map_entry:
  "AList.delete b (AList.map_entry k f g) =
     (if k = b then AList.delete b g else AList.map_entry k f (AList.delete b g))"
  by (induction g) auto

lemma by_type_delete:
  "AList.delete b
     (foldl (\<lambda>grouped c. AList.map_entry (group_key_by_type c) (\<lambda>cs. cs @ [c]) grouped) g cs) =
   foldl (\<lambda>grouped c. AList.map_entry (group_key_by_type c) (\<lambda>cs. cs @ [c]) grouped)
     (AList.delete b g) (filter (\<lambda>c. group_key_by_type c \<noteq> b) cs)"
  by (induction cs arbitrary: g) (simp_all add: delete_map_entry)

lemma not_index_breaking: "\<not> array_index ''breaking''"
  by (simp add: array_index_def digit_value_def)

lemma sections_delete: "sections (AList.delete ''breaking'' g) = sections g"
proof -
  have d: "AList.delete ''breaking'' g = filter (\<lambda>e. fst e \<noteq> ''breaking'') g"
    by (induction g) auto
  have 1: "filter (\<lambda>e. array_index (fst e)) (filter (\<lambda>e. fst e \<noteq> ''breaking'') g) =
      filter (\<lambda>e. array_index (fst e)) g"
    using not_index_breaking by (auto simp: filter_filter intro!: filter_cong)
  have 2: "filter (\<lambda>(name, commits). commits \<noteq> [] \<and> name \<noteq> ''breaking'')
        (filter (\<lambda>e. \<not> array_index (fst e)) (filter (\<lambda>e. fst e \<noteq> ''breaking'') g)) =
      filter (\<lambda>(name, commits). commits \<noteq> [] \<and> name \<noteq> ''breaking'')
        (filter (\<lambda>e. \<not> array_index (fst e)) g)"
    by (auto simp: filter_filter intro!: filter_cong)
  show ?thesis
    unfolding sections_def entries_def d 1 filter_append 2 ..
qed

lemma sections_omit:
  "map_sum id sections
     (grouped_commits groupBy (filter (\<lambda>c. group_key groupBy c \<noteq> ''breaking'') cs)) =
   map_sum id sections (grouped_commits groupBy cs)"
proof (cases groupBy)
  case ByType
  let ?step = "\<lambda>grouped c. AList.map_entry (group_key_by_type c) (\<lambda>cs. cs @ [c]) grouped"
  let ?g0 = "map (\<lambda>t. (commit_type_name t, [] :: ParsedCommit list)) all_commit_types"
  let ?keep = "\<lambda>c. group_key_by_type c \<noteq> ''breaking''"
  have "AList.delete ''breaking'' (foldl ?step ?g0 (filter ?keep cs)) =
      AList.delete ''breaking'' (foldl ?step ?g0 cs)"
    unfolding by_type_delete [of "''breaking''" ?g0] by simp
  then have "sections (AList.delete ''breaking'' (foldl ?step ?g0 (filter ?keep cs))) =
      sections (AList.delete ''breaking'' (foldl ?step ?g0 cs))"
    by simp
  then have "sections (foldl ?step ?g0 (filter ?keep cs)) = sections (foldl ?step ?g0 cs)"
    unfolding sections_delete .
  with ByType show ?thesis
    by (simp add: grouped_commits_def groupCommitsByType_def group_key_def)
next
  case ByScope
  have "''breaking'' \<notin> set object_prototype_keys" by (simp add: object_prototype_keys_def)
  from group_commits_delete [OF this, of scope_key "[]" cs] ByScope show ?thesis
    by (simp add: grouped_commits_def groupCommitsByScope_def group_key_def sections_delete
        split: sum.splits)
next
  case ByAuthor
  have "''breaking'' \<notin> set object_prototype_keys" by (simp add: object_prototype_keys_def)
  from group_commits_delete [OF this, of author "[]" cs] ByAuthor show ?thesis
    by (simp add: grouped_commits_def groupCommitsByAuthor_def group_key_def sections_delete
        split: sum.splits)
qed

lemma generateMarkdown_sections:
  "generateMarkdown env rn groupBy =
     (case map_sum id sections (grouped_commits groupBy (rn_commits rn)) of
        Inl e \<Rightarrow> Inl e
      | Inr secs \<Rightarrow>
          Inr (join_lines
                 (header_lines env rn @
                  breaking_lines (rn_breakingChanges rn) @
                  concat (map (section_lines groupBy) secs) @
                  (case rn_stats rn of Some st \<Rightarrow> stats_lines st | None \<Rightarrow> []))))"
  by (simp add: generateMarkdown_def split: sum.splits)

lemma generateMarkdown_omit:
  assumes "\<not> includeStats_of options"
  shows "generateMarkdown env
           (releaseNotes_of env (without_breaking_named groupBy commits) options) groupBy =
         generateMarkdown env (releaseNotes_of env commits options) groupBy"
proof -
  let ?rn = "releaseNotes_of env commits options"
  let ?rn' = "releaseNotes_of env (without_breaking_named groupBy commits) options"
  have c: "rn_commits ?rn' = filter (\<lambda>c. group_key groupBy c \<noteq> ''breaking'') (rn_commits ?rn)"
    by (auto simp: releaseNotes_of_def without_breaking_named_def filter_filter intro!: filter_cong)
  have b: "rn_breakingChanges ?rn' = rn_breakingChanges ?rn"
    by (auto simp: releaseNotes_of_def without_breaking_named_def filter_filter intro!: filter_cong)
  from assms have s: "rn_stats ?rn' = None" "rn_stats ?rn = None"
    by (simp_all add: releaseNotes_of_def includeStats_of_def)
  have h: "header_lines env ?rn' = header_lines env ?rn"
    by (simp add: header_lines_def s) (simp add: releaseNotes_of_def)
  show ?thesis
    unfolding generateMarkdown_sections c b s h sections_omit ..
qed

lemma generateReleaseNotes_omit:
  assumes "\<not> includeStats_of options" and "format_of options = ''markdown''"
  shows "generateReleaseNotes env (without_breaking_named (groupBy_of options) commits) options =
         generateReleaseNotes env commits options"
  using assms generateMarkdown_omit [OF assms(1), of env "groupBy_of options" commits]
  by (simp add: generateReleaseNotes_def format_of_def groupBy_of_def Let_def)

text \<open>
  Claim C2, as amended. Whenever the markdown document is produced, its text is the header,
  then the breaking-changes section, which lists the commits flagged breaking, then one
  section for each bucket of the grouping of the other commits, then the statistics.
  So under every grouping mode (by type, by scope, by author) a commit flagged breaking has
  its line in the breaking-changes section, hence in the text, and is a member of no
  grouped section; a commit that is not flagged is a member of the section named by its
  type (its scope, its author), and its line is in the text. The grouping functions by
  scope and by author themselves do not look at the flag: on the list they are given, every
  commit lands in the bucket of its scope (of its author).
\<close>

theorem breaking_commits_rendered_apart:
  "(format_of options = ''markdown'' \<and> generateReleaseNotes env commits options = Inr text \<longrightarrow>
      (\<exists>grouped.
         grouped_commits (groupBy_of options) (filter (\<lambda>c. \<not> breaking c) commits) = Inr grouped \<and>
         text = join_lines
                  (header_lines env (releaseNotes_of env commits options) @
                   breaking_lines (filter breaking commits) @
                   concat (map (section_lines (groupBy_of options)) (sections grouped)) @
                   stats_part options commits) \<and>
         (b \<in> set commits \<and> breaking b \<longrightarrow>
            breaking_line b \<in> set (breaking_lines (filter breaking commits)) \<and>
            str_includes text (breaking_line b) \<and>
            b \<notin> set (concat (map snd (sections grouped)))) \<and>
         (c \<in> set commits \<and> \<not> breaking c \<and> group_key (groupBy_of options) c \<noteq> ''breaking'' \<longrightarrow>
            c \<notin> set (filter breaking commits) \<and>
            (\<exists>v. (group_key (groupBy_of options) c, v) \<in> set (sections grouped) \<and> c \<in> set v) \<and>
            str_includes text (grouped_line (groupBy_of options) c)))) \<and>
   (groupCommitsByScope cs = Inr by_scope \<and> x \<in> set cs \<longrightarrow>
      (\<exists>v. (scope_key x, v) \<in> set by_scope \<and> x \<in> set v)) \<and>
   (groupCommitsByAuthor cs = Inr by_author \<and> x \<in> set cs \<longrightarrow>
      (\<exists>v. (author x, v) \<in> set by_author \<and> x \<in> set v))"
proof (intro conjI impI)
  let ?g = "groupBy_of options"
  let ?rest = "filter (\<lambda>c. \<not> breaking c) commits"
  assume "format_of options = ''markdown'' \<and> generateReleaseNotes env commits options = Inr text"
  then have f: "format_of options = ''markdown''"
    and r: "generateReleaseNotes env commits options = Inr text" by simp_all
  from markdown_shape [OF f r] obtain grouped where
    g: "grouped_commits ?g ?rest = Inr grouped" and
    t: "text = join_lines
                  (header_lines env (releaseNotes_of env commits options) @
                   breaking_lines (filter breaking commits) @
                   concat (map (section_lines ?g) (sections grouped)) @
                   stats_part options commits)"
    by blast
  have 1: "breaking_line b \<in> set (breaking_lines (filter breaking commits)) \<and>
        str_includes text (breaking_line b) \<and>
        b \<notin> set (concat (map snd (sections grouped)))"
    if b: "b \<in> set commits \<and> breaking b"
  proof -
    have "b \<notin> set (concat (map snd (sections grouped)))"
    proof
      assume "b \<in> set (concat (map snd (sections grouped)))"
      from in_sections [OF g this] b show False by simp
    qed
    with rendered_breaking [OF t, of b] b show ?thesis by simp
  qed
  have 2: "c \<notin> set (filter breaking commits) \<and>
        (\<exists>v. (group_key ?g c, v) \<in> set (sections grouped) \<and> c \<in> set v) \<and>
        str_includes text (grouped_line ?g c)"
    if c: "c \<in> set commits \<and> \<not> breaking c \<and> group_key ?g c \<noteq> ''breaking''"
  proof -
    from c have "c \<in> set ?rest" by simp
    from sections_file [OF g this] c obtain v where
      v: "(group_key ?g c, v) \<in> set (sections grouped)" "c \<in> set v" by blast
    from grouped_line_listed [OF v(1), of c ?g] v(2)
    have "grouped_line ?g c \<in> set (concat (map (section_lines ?g) (sections grouped)))" by simp
    then have "grouped_line ?g c \<in> set
        (header_lines env (releaseNotes_of env commits options) @
         breaking_lines (filter breaking commits) @
         concat (map (section_lines ?g) (sections grouped)) @
         stats_part options commits)"
      by simp
    from includes_join [OF this] t
    have "str_includes text (grouped_line ?g c)" by simp
    with v c show ?thesis by auto
  qed
  from g t 1 2 show "\<exists>grouped.
         grouped_commits ?g ?rest = Inr grouped \<and>
         text = join_lines
                  (header_lines env (releaseNotes_of env commits options) @
                   breaking_lines (filter breaking commits) @
                   concat (map (section_lines ?g) (sections grouped)) @
                   stats_part options commits) \<and>
         (b \<in> set commits \<and> breaking b \<longrightarrow>
            breaking_line b \<in> set (breaking_lines (filter breaking commits)) \<and>
            str_includes text (breaking_line b) \<and>
            b \<notin> set (concat (map snd (sections grouped)))) \<and>
         (c \<in> set commits \<and> \<not> breaking c \<and> group_key ?g c \<noteq> ''breaking'' \<longrightarrow>
            c \<notin> set (filter breaking commits) \<and>
            (\<exists>v. (group_key ?g c, v) \<in> set (sections grouped) \<and> c \<in> set v) \<and>
            str_includes text (grouped_line ?g c))"
    by blast
next
  assume "groupCommitsByScope cs = Inr by_scope \<and> x \<in> set cs"
  then show "\<exists>v. (scope_key x, v) \<in> set by_scope \<and> x \<in> set v"
    using group_commits_files_every_commit [of scope_key cs by_scope x]
    by (simp add: groupCommitsByScope_def)
next
  assume "groupCommitsByAuthor cs = Inr by_author \<and> x \<in> set cs"
  then show "\<exists>v. (author x, v) \<in> set by_author \<and> x \<in> set v"
    using group_commits_files_every_commit [of author cs by_author x]
    by (simp add: groupCommitsByAuthor_def)
qed


theorem breaking_commits_rendered_apart_witness:
  "generateReleaseNotes sample_env [sample_commit\<lparr>breaking := True\<rparr>, sample_commit]
     (sample_options ByScope ''markdown'') =
   Inr (join_lines
     [''# Release Notes'',
      ''> Generated on 2024-05-01'',
      '''',
      ''## '' @ emoji ''breaking'' @ '' Breaking Changes'' @ [NL],
      ''- '' @ emoji ''fix'' @ '' (api) fix typo [BREAKING] (#42)'',
      '''',
      ''## '' @ PACKAGE_EMOJI @ '' api'' @ [NL],
      ''- '' @ emoji ''fix'' @ '' fix typo (#42)'',
      '''']) \<and>
   (\<exists>grouped.
      grouped_commits ByScope
        (filter (\<lambda>c. \<not> breaking c) [sample_commit\<lparr>breaking := True\<rparr>, sample_commit]) =
      Inr grouped \<and>
      sample_commit\<lparr>breaking := True\<rparr> \<notin> set (concat (map snd (sections grouped))) \<and>
      (\<exists>v. (''api'', v) \<in> set (sections grouped) \<and> sample_commit \<in> set v)) \<and>
   str_includes
     (join_lines
       [''# Release Notes'',
        ''> Generated on 2024-05-01'',
        '''',
        ''## '' @ emoji ''breaking'' @ '' Breaking Changes'' @ [NL],
        ''- '' @ emoji ''fix'' @ '' (api) fix typo [BREAKING] (#42)'',
        '''',
        ''## '' @ PACKAGE_EMOJI @ '' api'' @ [NL],
        ''- '' @ emoji ''fix'' @ '' fix typo (#42)'',
        ''''])
     (''- '' @ emoji ''fix'' @ '' (api) fix typo [BREAKING] (#42)'') \<and>
   (\<exists>v. (''api'', v) \<in> set [(''api'', [sample_commit\<lparr>breaking := True\<rparr>])] \<and>
        sample_commit\<lparr>breaking := True\<rparr> \<in> set v)"
proof -
  let ?b = "sample_commit\<lparr>breaking := True\<rparr>"
  let ?commits = "[?b, sample_commit]"
  let ?opts = "sample_options ByScope ''markdown''"
  let ?text = "join_lines
     [''# Release Notes'',
      ''> Generated on 2024-05-01'',
      '''',
      ''## '' @ emoji ''breaking'' @ '' Breaking Changes'' @ [NL],
      ''- '' @ emoji ''fix'' @ '' (api) fix typo [BREAKING] (#42)'',
      '''',
      ''## '' @ PACKAGE_EMOJI @ '' api'' @ [NL],
      ''- '' @ emoji ''fix'' @ '' fix typo (#42)'',
      '''']"
  have f: "format_of ?opts = ''markdown''" by (simp add: format_of_def sample_options_def)
  have gb: "groupBy_of ?opts = ByScope" by (simp add: groupBy_of_def sample_options_def)
  have r: "generateReleaseNotes sample_env ?commits ?opts = Inr ?text" by code_simp
  have b: "?b \<in> set ?commits \<and> breaking ?b" by simp
  have c: "sample_commit \<in> set ?commits \<and> \<not> breaking sample_commit \<and>
      group_key ByScope sample_commit = ''api''"
    by (simp add: sample_commit_def group_key_def scope_key_def)
  have bl: "breaking_line ?b = ''- '' @ emoji ''fix'' @ '' (api) fix typo [BREAKING] (#42)''"
    by code_simp
  have s: "groupCommitsByScope [?b] = Inr [(''api'', [?b])] \<and> ?b \<in> set [?b]"
    by (simp add: groupCommitsByScope_def push_commit_def get_property_def scope_key_def
        sample_commit_def object_prototype_keys_def)
  have k: "scope_key ?b = ''api''" by (simp add: scope_key_def sample_commit_def)
  from breaking_commits_rendered_apart [of ?opts sample_env ?commits ?text ?b sample_commit
      "[?b]" "[(''api'', [?b])]" ?b] f r
  obtain grouped where
    g: "grouped_commits ByScope (filter (\<lambda>c. \<not> breaking c) ?commits) = Inr grouped" and
    1: "?b \<in> set ?commits \<and> breaking ?b \<longrightarrow>
        breaking_line ?b \<in> set (breaking_lines (filter breaking ?commits)) \<and>
        str_includes ?text (breaking_line ?b) \<and>
        ?b \<notin> set (concat (map snd (sections grouped)))" and
    2: "sample_commit \<in> set ?commits \<and> \<not> breaking sample_commit \<and>
        group_key ByScope sample_commit \<noteq> ''breaking'' \<longrightarrow>
        sample_commit \<notin> set (filter breaking ?commits) \<and>
        (\<exists>v. (group_key ByScope sample_commit, v) \<in> set (sections grouped) \<and>
             sample_commit \<in> set v) \<and>
        str_includes ?text (grouped_line ByScope sample_commit)" and
    3: "groupCommitsByScope [?b] = Inr [(''api'', [?b])] \<and> ?b \<in> set [?b] \<longrightarrow>
        (\<exists>v. (scope_key ?b, v) \<in> set [(''api'', [?b])] \<and> ?b \<in> set v)"
    unfolding gb by blast
  from 1 b bl have i: "str_includes ?text (''- '' @ emoji ''fix'' @ '' (api) fix typo [BREAKING] (#42)'')"
    and n: "?b \<notin> set (concat (map snd (sections grouped)))" by simp_all
  from 2 c have m: "\<exists>v. (''api'', v) \<in> set (sections grouped) \<and> sample_commit \<in> set v"
    by simp
  from 3 s k have e: "\<exists>v. (''api'', v) \<in> set [(''api'', [?b])] \<and> ?b \<in> set v"
    by simp
  from g n m have "\<exists>grouped.
      grouped_commits ByScope (filter (\<lambda>c. \<not> breaking c) ?commits) = Inr grouped \<and>
      ?b \<notin> set (concat (map snd (sections grouped))) \<and>
      (\<exists>v. (''api'', v) \<in> set (sections grouped) \<and> sample_commit \<in> set v)"
    by blast
  with r i e show ?thesis by blast
qed


text \<open>
  Claim C2 as stated fails for grouping by scope and by author: one commit flagged
  breaking, with the scope \<open>api\<close> and the author \<open>ann\<close>, is rendered in the
  breaking-changes section and nowhere else; the object of scope buckets is empty, and the
  text has no section for the scope or the author.
\<close>

theorem breaking_commit_under_scope_counterexample:
  "breaking (sample_commit\<lparr>breaking := True\<rparr>) \<and>
   scope (sample_commit\<lparr>breaking := True\<rparr>) = Some ''api'' \<and>
   author (sample_commit\<lparr>breaking := True\<rparr>) = ''ann'' \<and>
   generateReleaseNotes sample_env [sample_commit\<lparr>breaking := True\<rparr>]
     (sample_options ByScope ''markdown'') =
   Inr (join_lines
     [''# Release Notes'',
      ''> Generated on 2024-05-01'',
      '''',
      ''## '' @ emoji ''breaking'' @ '' Breaking Changes'' @ [NL],
      ''- '' @ emoji ''fix'' @ '' (api) fix typo [BREAKING] (#42)'',
      '''']) \<and>
   generateReleaseNotes sample_env [sample_commit\<lparr>breaking := True\<rparr>]
     (sample_options ByAuthor ''markdown'') =
   generateReleaseNotes sample_env [sample_commit\<lparr>breaking := True\<rparr>]
     (sample_options ByScope ''markdown'') \<and>
   grouped_commits ByScope (rn_commits (releaseNotes_of sample_env
       [sample_commit\<lparr>breaking := True\<rparr>] (sample_options ByScope ''markdown''))) = Inr []"
  by code_simp


text \<open>
  Claim C10, as amended. Whenever the markdown document is produced, its text is the
  header, the breaking-changes section, one section for each bucket of the grouping of the
  commits that are not flagged breaking, except the buckets that are empty or named
  \<open>breaking\<close>, and the statistics; the plain text is produced too, and is that text with
  its markers stripped. No grouped section is named \<open>breaking\<close>. A commit that is not
  flagged breaking and whose bucket is named \<open>breaking\<close> (its scope when grouping by scope,
  its author when grouping by author, its type when grouping by type) is then in neither
  part of the document: not in the breaking-changes section and in no grouped section; and
  when the statistics are not asked for, the text is the one produced from the commits
  without those commits. A commit flagged breaking has its line in the breaking-changes
  section and in the text, whatever its scope or author, and is in no grouped section.
\<close>

theorem breaking_named_groups_skipped:
  "format_of options = ''markdown'' \<and> generateReleaseNotes env commits options = Inr text \<longrightarrow>
     (\<exists>grouped.
        grouped_commits (groupBy_of options) (filter (\<lambda>c. \<not> breaking c) commits) = Inr grouped \<and>
        text = join_lines
                 (header_lines env (releaseNotes_of env commits options) @
                  breaking_lines (filter breaking commits) @
                  concat (map (section_lines (groupBy_of options)) (sections grouped)) @
                  stats_part options commits) \<and>
        ''breaking'' \<notin> set (map fst (sections grouped)) \<and>
        (n \<in> set commits \<and> \<not> breaking n \<and>
         (groupBy_of options = ByScope \<and> scope n = Some ''breaking'' \<or>
          groupBy_of options = ByAuthor \<and> author n = ''breaking'' \<or>
          groupBy_of options = ByType \<and> type n = Breaking) \<longrightarrow>
           n \<notin> set (filter breaking commits) \<and>
           n \<notin> set (concat (map snd (sections grouped)))) \<and>
        (b \<in> set commits \<and> breaking b \<longrightarrow>
           breaking_line b \<in> set (breaking_lines (filter breaking commits)) \<and>
           str_includes text (breaking_line b) \<and>
           b \<notin> set (concat (map snd (sections grouped))))) \<and>
     generateReleaseNotes env commits (options\<lparr>o_format := Some ''text''\<rparr>) =
       Inr (plain_text text) \<and>
     (\<not> includeStats_of options \<longrightarrow>
        generateReleaseNotes env (without_breaking_named (groupBy_of options) commits) options =
        Inr text)"
proof (intro impI conjI)
  let ?g = "groupBy_of options"
  let ?rest = "filter (\<lambda>c. \<not> breaking c) commits"
  assume "format_of options = ''markdown'' \<and> generateReleaseNotes env commits options = Inr text"
  then have f: "format_of options = ''markdown''"
    and r: "generateReleaseNotes env commits options = Inr text" by simp_all
  from plain_text_of_markdown [OF f r]
  show "generateReleaseNotes env commits (options\<lparr>o_format := Some ''text''\<rparr>) =
      Inr (plain_text text)" .
  {
    assume "\<not> includeStats_of options"
    from generateReleaseNotes_omit [OF this f, of env commits] r
    show "generateReleaseNotes env (without_breaking_named ?g commits) options = Inr text"
      by simp
  }
  from markdown_shape [OF f r] obtain grouped where
    g: "grouped_commits ?g ?rest = Inr grouped" and
    t: "text = join_lines
                  (header_lines env (releaseNotes_of env commits options) @
                   breaking_lines (filter breaking commits) @
                   concat (map (section_lines ?g) (sections grouped)) @
                   stats_part options commits)"
    by blast
  have 0: "''breaking'' \<notin> set (map fst (sections grouped))"
    by (auto simp: sections_member)
  have 1: "n \<notin> set (filter breaking commits) \<and> n \<notin> set (concat (map snd (sections grouped)))"
    if n: "n \<in> set commits \<and> \<not> breaking n \<and>
         (?g = ByScope \<and> scope n = Some ''breaking'' \<or>
          ?g = ByAuthor \<and> author n = ''breaking'' \<or>
          ?g = ByType \<and> type n = Breaking)"
  proof -
    from n have key: "group_key ?g n = ''breaking''"
      by (auto simp: group_key_def scope_key_def group_key_by_type_def)
    have "n \<notin> set (concat (map snd (sections grouped)))"
    proof
      assume "n \<in> set (concat (map snd (sections grouped)))"
      from in_sections [OF g this] key show False by simp
    qed
    with n show ?thesis by simp
  qed
  have 2: "breaking_line b \<in> set (breaking_lines (filter breaking commits)) \<and>
        str_includes text (breaking_line b) \<and>
        b \<notin> set (concat (map snd (sections grouped)))"
    if b: "b \<in> set commits \<and> breaking b"
  proof -
    have "b \<notin> set (concat (map snd (sections grouped)))"
    proof
      assume "b \<in> set (concat (map snd (sections grouped)))"
      from in_sections [OF g this] b show False by simp
    qed
    with rendered_breaking [OF t, of b] b show ?thesis by simp
  qed
  from g t 0 1 2 show "\<exists>grouped.
        grouped_commits ?g ?rest = Inr grouped \<and>
        text = join_lines
                 (header_lines env (releaseNotes_of env commits options) @
                  breaking_lines (filter breaking commits) @
                  concat (map (section_lines ?g) (sections grouped)) @
                  stats_part options commits) \<and>
        ''breaking'' \<notin> set (map fst (sections grouped)) \<and>
        (n \<in> set commits \<and> \<not> breaking n \<and>
         (?g = ByScope \<and> scope n = Some ''breaking'' \<or>
          ?g = ByAuthor \<and> author n = ''breaking'' \<or>
          ?g = ByType \<and> type n = Breaking) \<longrightarrow>
           n \<notin> set (filter breaking commits) \<and>
           n \<notin> set (concat (map snd (sections grouped)))) \<and>
        (b \<in> set commits \<and> breaking b \<longrightarrow>
           breaking_line b \<in> set (breaking_lines (filter breaking commits)) \<and>
           str_includes text (breaking_line b) \<and>
           b \<notin> set (concat (map snd (sections grouped))))"
    by blast
qed


theorem breaking_named_groups_skipped_witness:
  "generateReleaseNotes sample_env
     [sample_commit\<lparr>scope := Some ''breaking'', message := ''drop cache''\<rparr>,
      sample_commit\<lparr>breaking := True, author := ''breaking''\<rparr>, sample_commit]
     (sample_options ByScope ''markdown'') =
   Inr (join_lines
     [''# Release Notes'',
      ''> Generated on 2024-05-01'',
      '''',
      ''## '' @ emoji ''breaking'' @ '' Breaking Changes'' @ [NL],
      ''- '' @ emoji ''fix'' @ '' (api) fix typo [BREAKING] (#42)'',
      '''',
      ''## '' @ PACKAGE_EMOJI @ '' api'' @ [NL],
      ''- '' @ emoji ''fix'' @ '' fix typo (#42)'',
      '''']) \<and>
   generateReleaseNotes sample_env
     [sample_commit\<lparr>scope := Some ''breaking'', message := ''drop cache''\<rparr>,
      sample_commit\<lparr>breaking := True, author := ''breaking''\<rparr>, sample_commit]
     ((sample_options ByScope ''markdown'')\<lparr>o_format := Some ''text''\<rparr>) =
   Inr (join_lines
     [''Release Notes'',
      ''> Generated on 2024-05-01'',
      '''',
      emoji ''breaking'' @ '' Breaking Changes'' @ [NL],
      emoji ''fix'' @ '' (api) fix typo [BREAKING] (#42)'',
      '''',
      PACKAGE_EMOJI @ '' api'' @ [NL],
      emoji ''fix'' @ '' fix typo (#42)'']) \<and>
   (\<exists>grouped.
      grouped_commits ByScope
        (filter (\<lambda>c. \<not> breaking c)
          [sample_commit\<lparr>scope := Some ''breaking'', message := ''drop cache''\<rparr>,
           sample_commit\<lparr>breaking := True, author := ''breaking''\<rparr>, sample_commit]) =
      Inr grouped \<and>
      ''breaking'' \<notin> set (map fst (sections grouped)) \<and>
      sample_commit\<lparr>scope := Some ''breaking'', message := ''drop cache''\<rparr> \<notin>
        set (concat (map snd (sections grouped))) \<and>
      sample_commit\<lparr>breaking := True, author := ''breaking''\<rparr> \<notin>
        set (concat (map snd (sections grouped)))) \<and>
   sample_commit\<lparr>scope := Some ''breaking'', message := ''drop cache''\<rparr> \<notin>
     set (filter breaking
       [sample_commit\<lparr>scope := Some ''breaking'', message := ''drop cache''\<rparr>,
        sample_commit\<lparr>breaking := True, author := ''breaking''\<rparr>, sample_commit]) \<and>
   without_breaking_named ByScope
     [sample_commit\<lparr>scope := Some ''breaking'', message := ''drop cache''\<rparr>,
      sample_commit\<lparr>breaking := True, author := ''breaking''\<rparr>, sample_commit] =
   [sample_commit\<lparr>breaking := True, author := ''breaking''\<rparr>, sample_commit] \<and>
   generateReleaseNotes sample_env
     [sample_commit\<lparr>breaking := True, author := ''breaking''\<rparr>, sample_commit]
     (sample_options ByScope ''markdown'') =
   generateReleaseNotes sample_env
     [sample_commit\<lparr>scope := Some ''breaking'', message := ''drop cache''\<rparr>,
      sample_commit\<lparr>breaking := True, author := ''breaking''\<rparr>, sample_commit]
     (sample_options ByScope ''markdown'') \<and>
   \<not> str_includes
     (join_lines
       [''# Release Notes'',
        ''> Generated on 2024-05-01'',
        '''',
        ''## '' @ emoji ''breaking'' @ '' Breaking Changes'' @ [NL],
        ''- '' @ emoji ''fix'' @ '' (api) fix typo [BREAKING] (#42)'',
        '''',
        ''## '' @ PACKAGE_EMOJI @ '' api'' @ [NL],
        ''- '' @ emoji ''fix'' @ '' fix typo (#42)'',
        ''''])
     ''drop cache''"
proof -
  let ?n = "sample_commit\<lparr>scope := Some ''breaking'', message := ''drop cache''\<rparr>"
  let ?b = "sample_commit\<lparr>breaking := True, author := ''breaking''\<rparr>"
  let ?commits = "[?n, ?b, sample_commit]"
  let ?opts = "sample_options ByScope ''markdown''"
  let ?text = "join_lines
     [''# Release Notes'',
      ''> Generated on 2024-05-01'',
      '''',
      ''## '' @ emoji ''breaking'' @ '' Breaking Changes'' @ [NL],
      ''- '' @ emoji ''fix'' @ '' (api) fix typo [BREAKING] (#42)'',
      '''',
      ''## '' @ PACKAGE_EMOJI @ '' api'' @ [NL],
      ''- '' @ emoji ''fix'' @ '' fix typo (#42)'',
      '''']"
  have f: "format_of ?opts = ''markdown''" by (simp add: format_of_def sample_options_def)
  have gb: "groupBy_of ?opts = ByScope" by (simp add: groupBy_of_def sample_options_def)
  have r: "generateReleaseNotes sample_env ?commits ?opts = Inr ?text" by code_simp
  have p: "plain_text ?text = join_lines
     [''Release Notes'',
      ''> Generated on 2024-05-01'',
      '''',
      emoji ''breaking'' @ '' Breaking Changes'' @ [NL],
      emoji ''fix'' @ '' (api) fix typo [BREAKING] (#42)'',
      '''',
      PACKAGE_EMOJI @ '' api'' @ [NL],
      emoji ''fix'' @ '' fix typo (#42)'']"
    by code_simp
  have n: "?n \<in> set ?commits \<and> \<not> breaking ?n \<and> scope ?n = Some ''breaking''"
    by (simp add: sample_commit_def)
  have b: "?b \<in> set ?commits \<and> breaking ?b" by simp
  have i: "\<not> str_includes ?text ''drop cache''" by code_simp
  from breaking_named_groups_skipped [of ?opts sample_env ?commits ?text ?n ?b] f r
  obtain grouped where
    g: "grouped_commits ByScope (filter (\<lambda>c. \<not> breaking c) ?commits) = Inr grouped" and
    0: "''breaking'' \<notin> set (map fst (sections grouped))" and
    1: "?n \<in> set ?commits \<and> \<not> breaking ?n \<and>
         (ByScope = ByScope \<and> scope ?n = Some ''breaking'' \<or>
          ByScope = ByAuthor \<and> author ?n = ''breaking'' \<or>
          ByScope = ByType \<and> type ?n = Breaking) \<longrightarrow>
           ?n \<notin> set (filter breaking ?commits) \<and>
           ?n \<notin> set (concat (map snd (sections grouped)))" and
    2: "?b \<in> set ?commits \<and> breaking ?b \<longrightarrow>
           breaking_line ?b \<in> set (breaking_lines (filter breaking ?commits)) \<and>
           str_includes ?text (breaking_line ?b) \<and>
           ?b \<notin> set (concat (map snd (sections grouped)))" and
    3: "generateReleaseNotes sample_env ?commits (?opts\<lparr>o_format := Some ''text''\<rparr>) =
        Inr (plain_text ?text)" and
    4: "\<not> includeStats_of ?opts \<longrightarrow>
        generateReleaseNotes sample_env (without_breaking_named ByScope ?commits) ?opts =
        Inr ?text"
    unfolding gb by blast
  have w: "without_breaking_named ByScope ?commits = [?b, sample_commit]"
    by (simp add: without_breaking_named_def group_key_def scope_key_def sample_commit_def)
  have "\<not> includeStats_of ?opts" by (simp add: includeStats_of_def sample_options_def)
  with 4 w r have o: "generateReleaseNotes sample_env [?b, sample_commit] ?opts =
      generateReleaseNotes sample_env ?commits ?opts"
    by simp
  from 1 n have n1: "?n \<notin> set (filter breaking ?commits)"
    and n2: "?n \<notin> set (concat (map snd (sections grouped)))" by simp_all
  from 2 b have b2: "?b \<notin> set (concat (map snd (sections grouped)))" by simp
  from g 0 n2 b2 have "\<exists>grouped.
      grouped_commits ByScope (filter (\<lambda>c. \<not> breaking c) ?commits) = Inr grouped \<and>
      ''breaking'' \<notin> set (map fst (sections grouped)) \<and>
      ?n \<notin> set (concat (map snd (sections grouped))) \<and>
      ?b \<notin> set (concat (map snd (sections grouped)))"
    by blast
  with r 3 p n1 i w o show ?thesis by (simp only:) blast
qed


text \<open>
  Claim C10 as stated fails for a commit flagged breaking whose author is named
  \<open>breaking\<close>: grouped by author, it is not omitted but rendered in the breaking-changes
  section, in the markdown and in the plain text.
\<close>

theorem breaking_author_rendered_counterexample:
  "author (sample_commit\<lparr>breaking := True, author := ''breaking''\<rparr>) = ''breaking'' \<and>
   generateReleaseNotes sample_env [sample_commit\<lparr>breaking := True, author := ''breaking''\<rparr>]
     (sample_options ByAuthor ''markdown'') =
   Inr (join_lines
     [''# Release Notes'',
      ''> Generated on 2024-05-01'',
      '''',
      ''## '' @ emoji ''breaking'' @ '' Breaking Changes'' @ [NL],
      ''- '' @ emoji ''fix'' @ '' (api) fix typo [BREAKING] (#42)'',
      '''']) \<and>
   generateReleaseNotes sample_env [sample_commit\<lparr>breaking := True, author := ''breaking''\<rparr>]
     (sample_options ByAuthor ''text'') =
   Inr (join_lines
     [''Release Notes'',
      ''> Generated on 2024-05-01'',
      '''',
      emoji ''breaking'' @ '' Breaking Changes'' @ [NL],
      emoji ''fix'' @ '' (api) fix typo [BREAKING] (#42)''])"
  by code_simp

end
